theory Spec2Isabelle
  imports Main "HOL-Library.Sublist"
begin

section \<open>The radix matcher (pkg/cosan/radix.go)\<close>

subsection \<open>Data model\<close>

text \<open>The errors of errors.go.\<close>

datatype error = ErrRouterAlreadyCompiled | ErrConflictingRoutes | ErrInvalidPattern

text \<open>nodeType: the kind of a radix tree node.\<close>

datatype nodeType = staticNode | paramNode | wildcardNode

text \<open>
  A registered route (router.go); the handler is kept abstract in the matcher. The field
  \<open>method\<close> of the Go struct is \<open>httpMethod\<close> here.
\<close>

record 'h route =
  httpMethod :: string
  pattern :: string
  handler :: 'h

text \<open>
  radixNode. A Go pointer to a node that is owned by exactly one parent becomes the node
  itself; a nil pointer becomes \<open>None\<close>. In-place mutation of a node becomes a function
  that returns the node after the call.
\<close>

datatype 'h radixNode = RadixNode
  (path: string)
  (nType: nodeType)
  (paramName: string)
  (route: "'h route option")
  (children: "'h radixNode list")
  (wildcard: "'h radixNode option")
  (priority: int)

definition set_route :: "'h radixNode \<Rightarrow> 'h route option \<Rightarrow> 'h radixNode" where
  "set_route n rt = RadixNode (path n) (nType n) (paramName n) rt (children n) (wildcard n) (priority n)"

definition set_children :: "'h radixNode \<Rightarrow> 'h radixNode list \<Rightarrow> 'h radixNode" where
  "set_children n cs = RadixNode (path n) (nType n) (paramName n) (route n) cs (wildcard n) (priority n)"

definition set_wildcard :: "'h radixNode \<Rightarrow> 'h radixNode option \<Rightarrow> 'h radixNode" where
  "set_wildcard n w = RadixNode (path n) (nType n) (paramName n) (route n) (children n) w (priority n)"

text \<open>The matcher: one tree per HTTP method and the compiled flag (the mutex is not modelled).\<close>

record 'h radixMatcher =
  trees :: "string \<rightharpoonup> 'h radixNode"
  compiled :: bool

definition newRadixMatcher :: "'h radixMatcher" where
  "newRadixMatcher = \<lparr>trees = Map.empty, compiled = False\<rparr>"

subsection \<open>String helpers of package strings\<close>

definition HasPrefix :: "string \<Rightarrow> string \<Rightarrow> bool" where
  "HasPrefix s p = prefix p s"

definition TrimPrefix :: "string \<Rightarrow> string \<Rightarrow> string" where
  "TrimPrefix s p = (if HasPrefix s p then drop (length p) s else s)"

text \<open>strings.Index for a one-byte separator: the first position of the byte, \<open>None\<close> for -1.\<close>

fun IndexByte :: "string \<Rightarrow> char \<Rightarrow> nat option" where
  "IndexByte [] c = None"
| "IndexByte (x # xs) c = (if x = c then Some 0 else map_option Suc (IndexByte xs c))"

text \<open>splitPath splits a path into the next segment and the remaining path.\<close>

definition splitPath :: "string \<Rightarrow> string \<times> string" where
  "splitPath p =
     (if p = [] then ([], [])
      else case IndexByte p (CHR ''/'') of
             None \<Rightarrow> (p, [])
           | Some i \<Rightarrow> (take i p, drop (i + 1) p))"

subsection \<open>Insertion\<close>

text \<open>
  The loop of insertStatic returns at the first child that is static and whose path is a
  prefix of the segment; this is the index of that child.
\<close>

fun findStaticChild :: "'h radixNode list \<Rightarrow> string \<Rightarrow> nat option" where
  "findStaticChild [] segment = None"
| "findStaticChild (child # cs) segment =
     (if nType child = staticNode \<and> HasPrefix segment (path child) then Some 0
      else map_option Suc (findStaticChild cs segment))"

text \<open>The loop of insertParam returns at the first param child with the same name.\<close>

fun findParamChild :: "'h radixNode list \<Rightarrow> string \<Rightarrow> nat option" where
  "findParamChild [] name = None"
| "findParamChild (child # cs) name =
     (if nType child = paramNode \<and> paramName child = name then Some 0
      else map_option Suc (findParamChild cs name))"

text \<open>insertWildcard: a conflict if the node has a wildcard child, else a new wildcard child.\<close>

definition insertWildcard ::
  "'h radixNode \<Rightarrow> string \<Rightarrow> 'h route \<Rightarrow> error option \<times> 'h radixNode" where
  "insertWildcard node name r =
     (if wildcard node \<noteq> None then (Some ErrConflictingRoutes, node)
      else (None, set_wildcard node (Some (RadixNode [] wildcardNode name (Some r) [] None 10))))"

text \<open>The number of nodes reachable through children: the measure of the insertion.\<close>

fun nodes :: "'h radixNode \<Rightarrow> nat" where
  "nodes (RadixNode p t pn rt cs w pr) = Suc (sum_list (map nodes cs))"

lemma nodes_pos: "0 < nodes n"
  by (cases n) simp

lemma nodes_child: "i < length (children n) \<Longrightarrow> nodes (children n ! i) < nodes n"
proof (cases n)
  case (RadixNode p t pn rt cs w pr)
  assume "i < length (children n)"
  then have "cs ! i \<in> set cs" using RadixNode by simp
  then have "nodes (cs ! i) \<le> sum_list (map nodes cs)"
    by (simp add: member_le_sum_list)
  then show ?thesis using RadixNode by simp
qed

lemma findStaticChild_less: "findStaticChild cs s = Some i \<Longrightarrow> i < length cs"
  by (induction cs arbitrary: i) (auto split: if_splits)

lemma findParamChild_less: "findParamChild cs s = Some i \<Longrightarrow> i < length cs"
  by (induction cs arbitrary: i) (auto split: if_splits)

lemma splitPath_shorter: "p \<noteq> [] \<Longrightarrow> length (snd (splitPath p)) < length p"
  by (auto simp: splitPath_def split: option.splits)

lemma splitPath_half: "p \<noteq> [] \<Longrightarrow> Suc (2 * length (snd (splitPath p))) < 2 * length p"
  using splitPath_shorter[of p] by simp

lemma TrimPrefix_half: "2 * length (TrimPrefix s p) < Suc (2 * length s)"
  by (auto simp: TrimPrefix_def)

lemma nodes_one: "Suc 0 \<noteq> nodes n \<Longrightarrow> Suc 0 < nodes n"
  using nodes_pos[of n] by simp

text \<open>
  insertRoute, insertStatic and insertParam return the error (\<open>None\<close> for nil) together
  with the node as the call leaves it: the Go code mutates the tree in place, also on the
  way to an error.
\<close>

function insertRoute :: "'h radixNode \<Rightarrow> string \<Rightarrow> 'h route \<Rightarrow> error option \<times> 'h radixNode"
  and insertStatic :: "'h radixNode \<Rightarrow> string \<Rightarrow> string \<Rightarrow> 'h route \<Rightarrow> error option \<times> 'h radixNode"
  and insertParam :: "'h radixNode \<Rightarrow> string \<Rightarrow> string \<Rightarrow> 'h route \<Rightarrow> error option \<times> 'h radixNode"
where
  "insertRoute node pattern0 r =
     (let pattern = TrimPrefix pattern0 ''/'' in
      if pattern = [] then
        (if route node \<noteq> None then (Some ErrConflictingRoutes, node)
         else (None, set_route node (Some r)))
      else
        (let segment = fst (splitPath pattern); remaining = snd (splitPath pattern) in
         if HasPrefix segment '':'' then insertParam node (drop 1 segment) remaining r
         else if HasPrefix segment ''*'' then insertWildcard node (drop 1 segment) r
         else insertStatic node segment remaining r))"
| "insertStatic node segment remaining r =
     (case findStaticChild (children node) segment of
        Some i \<Rightarrow>
          (let child = children node ! i in
           if length (path child) = length segment then
             (case insertRoute child remaining r of
                (e, child') \<Rightarrow> (e, set_children node ((children node)[i := child'])))
           else
             (case insertRoute child (drop (length (path child)) segment @ ''/'' @ remaining) r of
                (e, child') \<Rightarrow> (e, set_children node ((children node)[i := child']))))
      | None \<Rightarrow>
          (case insertRoute (RadixNode segment staticNode [] None [] None 100) remaining r of
             (e, newNode) \<Rightarrow> (e, set_children node (children node @ [newNode]))))"
| "insertParam node name remaining r =
     (case findParamChild (children node) name of
        Some i \<Rightarrow>
          (case insertRoute (children node ! i) remaining r of
             (e, child') \<Rightarrow> (e, set_children node ((children node)[i := child'])))
      | None \<Rightarrow>
          (case insertRoute (RadixNode [] paramNode name None [] None 50) remaining r of
             (e, newNode) \<Rightarrow> (e, set_children node (children node @ [newNode]))))"
  by pat_completeness auto
termination
proof (relation "inv_image (less_than <*lex*> less_than)
    (\<lambda>x. case x of
        Inl (node, pat, r) \<Rightarrow> (nodes node, 2 * length (TrimPrefix pat ''/''))
      | Inr (Inl (node, seg, rem, r)) \<Rightarrow> (nodes node, 2 * length rem + 1)
      | Inr (Inr (node, name, rem, r)) \<Rightarrow> (nodes node, 2 * length rem + 1))", goal_cases)
  case 1
  show ?case by auto
qed (auto dest!: findStaticChild_less findParamChild_less
      simp: nodes_child splitPath_half TrimPrefix_half nodes_one)

declare insertRoute.simps [simp del] insertStatic.simps [simp del] insertParam.simps [simp del]

subsection \<open>Register\<close>

text \<open>
  Register returns the error and the matcher as the call leaves it. A method without a
  tree gets an empty root before the insertion, and keeps it whatever the insertion returns.
\<close>

definition Register ::
  "'h radixMatcher \<Rightarrow> string \<Rightarrow> string \<Rightarrow> 'h \<Rightarrow> error option \<times> 'h radixMatcher" where
  "Register m meth pat h =
     (if compiled m then (Some ErrRouterAlreadyCompiled, m)
      else
        (let r = \<lparr>httpMethod = meth, pattern = pat, handler = h\<rparr>;
             tree = (case trees m meth of
                       None \<Rightarrow> RadixNode [] staticNode [] None [] None 0
                     | Some t \<Rightarrow> t)
         in case insertRoute tree pat r of
              (e, tree') \<Rightarrow> (e, m\<lparr>trees := (trees m)(meth \<mapsto> tree')\<rparr>)))"

subsection \<open>Compile\<close>

text \<open>The inner loop of sortByPriority: j runs from its start to the end of the slice.\<close>

function sortInner :: "'h radixNode list \<Rightarrow> nat \<Rightarrow> nat \<Rightarrow> 'h radixNode list" where
  "sortInner cs i j =
     (if j < length cs then
        (if priority (cs ! j) > priority (cs ! i)
         then sortInner (cs[i := cs ! j, j := cs ! i]) i (j + 1)
         else sortInner cs i (j + 1))
      else cs)"
  by pat_completeness auto
termination
  by (relation "measure (\<lambda>(cs, i, j). length cs - j)") auto

declare sortInner.simps [simp del]

lemma length_sortInner: "length (sortInner cs i j) = length cs"
  by (induction cs i j rule: sortInner.induct) (subst sortInner.simps, simp)

lemma set_sortInner: "i < j \<Longrightarrow> set (sortInner cs i j) = set cs"
proof (induction cs i j rule: sortInner.induct)
  case (1 cs i j)
  show ?case
  proof (cases "j < length cs")
    case True
    then have "set (cs[i := cs ! j, j := cs ! i]) = set cs"
      using "1.prems" by simp
    then show ?thesis
      using True "1.IH" "1.prems" by (subst sortInner.simps) auto
  next
    case False
    then show ?thesis by (subst sortInner.simps) simp
  qed
qed

text \<open>The outer loop: i runs from its start to the end of the slice.\<close>

function sortOuter :: "'h radixNode list \<Rightarrow> nat \<Rightarrow> 'h radixNode list" where
  "sortOuter cs i =
     (if i < length cs then sortOuter (sortInner cs i (i + 1)) (i + 1) else cs)"
  by pat_completeness auto
termination
  by (relation "measure (\<lambda>(cs, i). length cs - i)") (auto simp: length_sortInner)

declare sortOuter.simps [simp del]

lemma set_sortOuter: "set (sortOuter cs i) = set cs"
proof (induction cs i rule: sortOuter.induct)
  case (1 cs i)
  show ?case
  proof (cases "i < length cs")
    case True
    then show ?thesis
      using "1.IH" by (subst sortOuter.simps) (simp add: set_sortInner)
  next
    case False
    then show ?thesis by (subst sortOuter.simps) simp
  qed
qed

text \<open>
  sortByPriority sorts the children of a node in place, then those of every child. The
  wildcard child is not visited.
\<close>

function sortByPriority :: "'h radixNode \<Rightarrow> 'h radixNode" where
  "sortByPriority (RadixNode p t pn rt cs w pr) =
     RadixNode p t pn rt (map sortByPriority (sortOuter cs 0)) w pr"
  by pat_completeness auto
termination
proof (relation "measure size", goal_cases)
  case 1
  show ?case by simp
next
  case (2 p t pn rt cs w pr x)
  then have "x \<in> set cs" by (simp add: set_sortOuter)
  then have "size x \<le> size_list size cs" by (rule size_list_estimation') simp
  then show ?case by simp
qed

text \<open>Compile sorts every tree once; a second call returns at the flag.\<close>

definition Compile :: "'h radixMatcher \<Rightarrow> error option \<times> 'h radixMatcher" where
  "Compile m =
     (if compiled m then (None, m)
      else (None, m\<lparr>trees := map_option sortByPriority \<circ> trees m, compiled := True\<rparr>))"

subsection \<open>Match\<close>

type_synonym params = "string \<rightharpoonup> string"

text \<open>
  search returns the route (\<open>None\<close> for nil) and the parameter map as the call leaves
  it: the Go code writes into the caller's map. searchStatic and searchParam are the two
  loops over the children; each goes on with the next child when the recursive search
  returns nil.
\<close>

fun search :: "'h radixNode \<Rightarrow> string \<Rightarrow> params \<Rightarrow> 'h route option \<times> params"
  and searchStatic :: "'h radixNode list \<Rightarrow> string \<Rightarrow> params \<Rightarrow> 'h route option \<times> params"
  and searchParam :: "'h radixNode list \<Rightarrow> string \<Rightarrow> params \<Rightarrow> 'h route option \<times> params"
where
  "search (RadixNode p t pn rt cs w pr) pth ps =
     (if pth = [] then (rt, ps)
      else
        (case searchStatic cs pth ps of
           (Some r, ps1) \<Rightarrow> (Some r, ps1)
         | (None, ps1) \<Rightarrow>
             (case searchParam cs pth ps1 of
                (Some r, ps2) \<Rightarrow> (Some r, ps2)
              | (None, ps2) \<Rightarrow>
                  (case w of
                     Some wn \<Rightarrow> (route wn, ps2(paramName wn \<mapsto> pth))
                   | None \<Rightarrow> (None, ps2)))))"
| "searchStatic [] pth ps = (None, ps)"
| "searchStatic (child # cs) pth ps =
     (if nType child = staticNode \<and> HasPrefix pth (path child) \<and>
         (drop (length (path child)) pth = [] \<or> hd (drop (length (path child)) pth) = CHR ''/'')
      then
        (case search child (TrimPrefix (drop (length (path child)) pth) ''/'') ps of
           (Some r, ps1) \<Rightarrow> (Some r, ps1)
         | (None, ps1) \<Rightarrow> searchStatic cs pth ps1)
      else searchStatic cs pth ps)"
| "searchParam [] pth ps = (None, ps)"
| "searchParam (child # cs) pth ps =
     (if nType child = paramNode \<and> fst (splitPath pth) \<noteq> [] then
        (case search child (snd (splitPath pth)) (ps(paramName child \<mapsto> fst (splitPath pth))) of
           (Some r, ps1) \<Rightarrow> (Some r, ps1)
         | (None, ps1) \<Rightarrow> searchParam cs pth (ps1(paramName child := None)))
      else searchParam cs pth ps)"

text \<open>
  Match: \<open>None\<close> is found = false; \<open>Some (r, params)\<close> is the route, the parameter
  map and found = true.
\<close>

definition Match :: "'h radixMatcher \<Rightarrow> string \<Rightarrow> string \<Rightarrow> ('h route \<times> params) option" where
  "Match m meth pth =
     (case trees m meth of
        None \<Rightarrow> None
      | Some tree \<Rightarrow>
          (case search tree (TrimPrefix pth ''/'') Map.empty of
             (Some r, ps) \<Rightarrow> Some (r, ps)
           | (None, ps) \<Rightarrow> None))"

section \<open>Dispatch (router.go, hooks.go, context.go, pool.go)\<close>

subsection \<open>Requests, response writers and contexts\<close>

text \<open>The two fields of *http.Request that the router reads: Method and URL.Path.\<close>

record request =
  reqMethod :: string
  urlPath :: string

text \<open>
  http.ResponseWriter is an interface of net/http. What the program does to a writer is
  the sequence of calls it makes on it, and a writer is that sequence here, the first call
  first: Header().Set, Header().Del, WriteHeader and Write. What an implementation of the
  interface makes of the calls is not part of the model.
\<close>

datatype wcall =
    CallSet string string
  | CallDel string
  | CallWriteHeader nat
  | CallWrite string

type_synonym response = "wcall list"

definition WriteHeader :: "response \<Rightarrow> nat \<Rightarrow> response" where
  "WriteHeader w c = w @ [CallWriteHeader c]"

definition Write :: "response \<Rightarrow> string \<Rightarrow> response" where
  "Write w b = w @ [CallWrite b]"

definition SetHeader :: "response \<Rightarrow> string \<Rightarrow> string \<Rightarrow> response" where
  "SetHeader w k v = w @ [CallSet k v]"

definition DelHeader :: "response \<Rightarrow> string \<Rightarrow> response" where
  "DelHeader w k = w @ [CallDel k]"

text \<open>The bytes that the calls of Write have passed to the writer, in order.\<close>

fun body :: "response \<Rightarrow> string" where
  "body [] = []"
| "body (CallWrite b # w) = b @ body w"
| "body (c # w) = body w"

text \<open>
  http.Error of net/http: plain text headers, the status code, then the message and a
  newline. http.NotFound is http.Error with the fixed 404 text.
\<close>

definition http_Error :: "response \<Rightarrow> string \<Rightarrow> nat \<Rightarrow> response" where
  "http_Error w msg c =
     Write (WriteHeader
       (SetHeader (SetHeader (DelHeader w ''Content-Length'')
          ''Content-Type'' ''text/plain; charset=utf-8'')
          ''X-Content-Type-Options'' ''nosniff'') c) (msg @ [CHR 0x0A])"

definition http_NotFound :: "response \<Rightarrow> request \<Rightarrow> response" where
  "http_NotFound w r = http_Error w ''404 page not found'' 404"

text \<open>The values of the key-value bag are of any Go type.\<close>

typedecl anyValue

text \<open>
  context (context.go). The request and the response writer are pointers in Go, nil after
  release; the writer is carried with the calls made on it so far, so what a handler does
  to the writer through the context is what the dispatch finds in the writer afterwards.
\<close>

record ctx =
  req :: "request option"
  res :: "response option"
  params :: params
  bag :: "string \<rightharpoonup> anyValue"

text \<open>
  A handler returns an error (\<open>None\<close> for nil), or panics; either way it leaves the
  context and the writer as it changed them. An error is its message.
\<close>

datatype hresult = Returned "string option" | Panicked

type_synonym HandlerFunc = "ctx \<Rightarrow> hresult \<times> ctx"

text \<open>A Middleware is its Process method; MiddlewareFunc.Process applies the function.\<close>

type_synonym Middleware = "HandlerFunc \<Rightarrow> HandlerFunc"

definition Process :: "Middleware \<Rightarrow> HandlerFunc \<Rightarrow> HandlerFunc" where
  "Process mw next = mw next"

text \<open>How a call that returns no value ends: it returns, or a panic leaves it.\<close>

datatype exit = Finished | PanicExit

text \<open>An ErrorHandler takes the context and the error and returns no value.\<close>

type_synonym ErrorHandler = "ctx \<Rightarrow> string \<Rightarrow> exit \<times> ctx"

definition newContext :: "response \<Rightarrow> request \<Rightarrow> params \<Rightarrow> ctx" where
  "newContext w r ps = \<lparr>req = Some r, res = Some w, params = ps, bag = Map.empty\<rparr>"


text \<open>The writer after a handler ran is the one the context holds.\<close>

definition writerOf :: "ctx \<Rightarrow> response \<Rightarrow> response" where
  "writerOf c w = (case res c of Some w' \<Rightarrow> w' | None \<Rightarrow> w)"

subsection \<open>The router of pkg/cosan (router.go)\<close>

text \<open>router. The field \<open>compiled\<close> of the Go struct is \<open>routerCompiled\<close> here.\<close>

record router =
  routes :: "HandlerFunc route list"
  middleware :: "Middleware list"
  matcher :: "HandlerFunc radixMatcher"
  routerCompiled :: bool

definition New :: router where
  "New = \<lparr>routes = [], middleware = [], matcher = newRadixMatcher, routerCompiled = False\<rparr>"

text \<open>Use panics on a compiled router (\<open>None\<close>), else appends the middleware.\<close>

definition Use :: "router \<Rightarrow> Middleware list \<Rightarrow> router option" where
  "Use r mws =
     (if routerCompiled r then None else Some (r\<lparr>middleware := middleware r @ mws\<rparr>))"

text \<open>registerRoute panics (\<open>None\<close>) on a compiled router, a duplicate, or a matcher error.\<close>

definition registerRoute :: "router \<Rightarrow> string \<Rightarrow> string \<Rightarrow> HandlerFunc \<Rightarrow> router option" where
  "registerRoute r meth pat h =
     (if routerCompiled r then None
      else if \<exists>existing \<in> set (routes r). httpMethod existing = meth \<and> pattern existing = pat
        then None
      else
        (let r1 = r\<lparr>routes := routes r @ [\<lparr>httpMethod = meth, pattern = pat, handler = h\<rparr>]\<rparr> in
         case Register (matcher r1) meth pat h of
           (Some e, m) \<Rightarrow> None
         | (None, m) \<Rightarrow> Some (r1\<lparr>matcher := m\<rparr>)))"

definition GET :: "router \<Rightarrow> string \<Rightarrow> HandlerFunc \<Rightarrow> router option" where
  "GET r pat h = registerRoute r ''GET'' pat h"

text \<open>ensureCompiled compiles the matcher on the first call; Compile returns no error.\<close>

definition ensureCompiled :: "router \<Rightarrow> router" where
  "ensureCompiled r =
     (if routerCompiled r then r
      else r\<lparr>matcher := snd (Compile (matcher r)), routerCompiled := True\<rparr>)"

text \<open>
  The loop of ServeHTTP over the middleware, from the last index down to 0: \<open>i\<close> is the
  number of indices still to visit.
\<close>

fun applyMiddleware :: "Middleware list \<Rightarrow> nat \<Rightarrow> HandlerFunc \<Rightarrow> HandlerFunc" where
  "applyMiddleware mws 0 h = h"
| "applyMiddleware mws (Suc i) h = applyMiddleware mws i (Process (mws ! i) h)"

text \<open>The handler after the loop: the value of the variable handler when it is called.\<close>

definition effectiveHandler :: "router \<Rightarrow> HandlerFunc route \<Rightarrow> HandlerFunc" where
  "effectiveHandler r rt = applyMiddleware (middleware r) (length (middleware r)) (handler rt)"

text \<open>
  ServeHTTP (router.go of pkg/cosan). It returns the router and the response writer as
  the call leaves them, and how the call ends. The context is built by newContext; a
  handler error is answered by http.Error with status 500.
\<close>

definition ServeHTTP :: "router \<Rightarrow> response \<Rightarrow> request \<Rightarrow> router \<times> response \<times> exit" where
  "ServeHTTP r w rq =
     (let r1 = ensureCompiled r in
      case Match (matcher r1) (reqMethod rq) (urlPath rq) of
        None \<Rightarrow> (r1, http_NotFound w rq, Finished)
      | Some (rt, ps) \<Rightarrow>
          (let c = newContext w rq ps;
               h = effectiveHandler r1 rt
           in case h c of
                (Returned None, c') \<Rightarrow> (r1, writerOf c' w, Finished)
              | (Returned (Some err), c') \<Rightarrow> (r1, http_Error (writerOf c' w) err 500, Finished)
              | (Panicked, c') \<Rightarrow> (r1, writerOf c' w, PanicExit)))"

subsection \<open>The context pool (pool.go)\<close>




subsection \<open>The hooks and the dispatch of the package of pool.go (hooks.go)\<close>

record hooks =
  beforeRequest :: "(request \<Rightarrow> string option) list"
  afterResponse :: "(request \<Rightarrow> nat \<Rightarrow> unit) list"
  errorHandler :: "ErrorHandler option"

text \<open>
  Modelled from the spec: the router struct that hooks.go and pool.go belong to. Its
  router.go is not among the sources; the router of pkg/cosan above has no field hooks
  and cannot reach the pool. The struct has the field \<open>hooks\<close> that hooks.go reads and
  writes and, for the dispatch of section 4.3 of the specification, the route table and
  the registered middleware.
\<close>

record poolRouter =
  table :: "HandlerFunc radixMatcher"
  registered :: "Middleware list"
  hooks :: "hooks option"

definition emptyHooks :: hooks where
  "emptyHooks = \<lparr>beforeRequest = [], afterResponse = [], errorHandler = None\<rparr>"

text \<open>SetErrorHandler (hooks.go) creates the hooks when there are none and sets the handler.\<close>

definition SetErrorHandler :: "poolRouter \<Rightarrow> ErrorHandler \<Rightarrow> poolRouter" where
  "SetErrorHandler r h =
     r\<lparr>hooks := Some ((case hooks r of None \<Rightarrow> emptyHooks | Some hk \<Rightarrow> hk)
                        \<lparr>errorHandler := Some h\<rparr>)\<rparr>"



subsection \<open>Handlers and middleware of the examples\<close>

text \<open>
  A middleware that marks the response before and after it calls the next handler, to
  observe the order in which a chain runs.
\<close>

definition mark :: "ctx \<Rightarrow> string \<Rightarrow> ctx" where
  "mark c s = c\<lparr>res := map_option (\<lambda>w. Write w s) (res c)\<rparr>"

definition marking :: "string \<Rightarrow> Middleware" where
  "marking k next = (\<lambda>c. case next (mark c (''<'' @ k)) of (x, c') \<Rightarrow> (x, mark c' (''>'' @ k)))"

definition hello :: HandlerFunc where
  "hello c = (Returned None, mark c ''hello'')"

text \<open>A writer on which no call has been made.\<close>

definition blank :: response where
  "blank = []"





text \<open>
  The router of the tests of the hooks: one route, GET /test, no middleware, on the table
  that Register leaves.
\<close>

definition testRouter :: "HandlerFunc \<Rightarrow> poolRouter" where
  "testRouter h =
     \<lparr>table = snd (Register newRadixMatcher ''GET'' ''/test'' h), registered = [], hooks = None\<rparr>"

definition testRequest :: request where
  "testRequest = \<lparr>reqMethod = ''GET'', urlPath = ''/test''\<rparr>"

section \<open>Notions used in the statements\<close>

text \<open>A sequence of Register calls, each on the matcher the previous one left.\<close>

fun RegisterAll :: "'h radixMatcher \<Rightarrow> (string \<times> string \<times> 'h) list \<Rightarrow> 'h radixMatcher" where
  "RegisterAll m [] = m"
| "RegisterAll m ((meth, pat, h) # regs) = RegisterAll (snd (Register m meth pat h)) regs"

text \<open>A prefix of a pattern that ends where a segment starts: empty, or ending in a slash.\<close>

definition boundary :: "string \<Rightarrow> bool" where
  "boundary pre = (pre = [] \<or> last pre = CHR ''/'')"

text \<open>The two kinds of children that the loops of search select.\<close>

definition isStatic :: "'h radixNode \<Rightarrow> bool" where
  "isStatic c = (nType c = staticNode)"

definition isParam :: "'h radixNode \<Rightarrow> bool" where
  "isParam c = (nType c = paramNode)"

text \<open>The two routes /users/:id and /users/me on GET, registered in either order.\<close>

definition usersTwo :: "'h \<Rightarrow> 'h \<Rightarrow> 'h radixMatcher" where
  "usersTwo hp hs = snd (Register (snd (Register newRadixMatcher ''GET'' ''/users/:id'' hp)) ''GET'' ''/users/me'' hs)"

definition usersTwoRev :: "'h \<Rightarrow> 'h \<Rightarrow> 'h radixMatcher" where
  "usersTwoRev hp hs = snd (Register (snd (Register newRadixMatcher ''GET'' ''/users/me'' hs)) ''GET'' ''/users/:id'' hp)"

text \<open>The routes /:id, /ab and /abc on GET, the two static routes in either order.\<close>

definition abThree :: "'h \<Rightarrow> 'h \<Rightarrow> 'h \<Rightarrow> 'h radixMatcher" where
  "abThree hp h1 h2 =
     snd (Register (snd (Register (snd (Register newRadixMatcher ''GET'' ''/:id'' hp))
       ''GET'' ''/ab'' h1)) ''GET'' ''/abc'' h2)"

definition abThreeRev :: "'h \<Rightarrow> 'h \<Rightarrow> 'h \<Rightarrow> 'h radixMatcher" where
  "abThreeRev hp h1 h2 =
     snd (Register (snd (Register (snd (Register newRadixMatcher ''GET'' ''/:id'' hp))
       ''GET'' ''/abc'' h2)) ''GET'' ''/ab'' h1)"




text \<open>A node as insertStatic and insertParam create it: no children, route or wildcard.\<close>

definition isLeaf :: "'h radixNode \<Rightarrow> bool" where
  "isLeaf n = (children n = [] \<and> route n = None \<and> wildcard n = None)"

text \<open>
  Patterns and paths as lists of segments. A pattern segment is a parameter when it starts
  with a colon. The segments considered here are not empty, have no slash and are no
  wildcard. A path segment fits a parameter when it is a non-empty text without slash, and
  fits a static segment when it is the same text.
\<close>

definition isParamSeg :: "string \<Rightarrow> bool" where
  "isParamSeg s = HasPrefix s '':''"

definition validSeg :: "string \<Rightarrow> bool" where
  "validSeg s = (s \<noteq> [] \<and> CHR ''/'' \<notin> set s \<and> \<not> HasPrefix s ''*'')"

definition fits :: "string \<Rightarrow> string \<Rightarrow> bool" where
  "fits p v = (if isParamSeg p then v \<noteq> [] \<and> CHR ''/'' \<notin> set v else v = p)"

text \<open>The segments joined by slashes, and the parameters that a fitting path binds.\<close>

fun joinSlash :: "string list \<Rightarrow> string" where
  "joinSlash [] = []"
| "joinSlash [x] = x"
| "joinSlash (x # y # ys) = x @ ''/'' @ joinSlash (y # ys)"


text \<open>The segments, each after a slash: the pattern or path as Register and Match take it.\<close>

definition slashPath :: "string list \<Rightarrow> string" where
  "slashPath segs = concat (map (\<lambda>s. CHR ''/'' # s) segs)"

text \<open>
  A static child accepts a path when its label is a prefix of the path that ends at a
  slash or at the end of the path; the search goes on below it with the rest of the path.
  A static segment is a valid segment that is no parameter.
\<close>

definition accepts :: "'h radixNode \<Rightarrow> string \<Rightarrow> bool" where
  "accepts c pth =
     (HasPrefix pth (path c) \<and>
      (drop (length (path c)) pth = [] \<or> hd (drop (length (path c)) pth) = CHR ''/''))"

definition afterLabel :: "'h radixNode \<Rightarrow> string \<Rightarrow> string" where
  "afterLabel c pth = TrimPrefix (drop (length (path c)) pth) ''/''"

definition staticSeg :: "string \<Rightarrow> bool" where
  "staticSeg x = (validSeg x \<and> \<not> isParamSeg x)"

section \<open>Properties of the matcher\<close>

text \<open>The equations that evaluate the matcher on a concrete input.\<close>

lemmas matcher_eval =
  Match_def Compile_def Register_def newRadixMatcher_def TrimPrefix_def HasPrefix_def
  splitPath_def insertWildcard_def set_route_def set_children_def set_wildcard_def
  insertRoute.simps insertStatic.simps insertParam.simps sortInner.simps sortOuter.simps

subsection \<open>Registration after Compile\<close>

lemma compiled_Compile: "compiled (snd (Compile m))"
  by (simp add: Compile_def)

lemma Register_compiled: "compiled m \<Longrightarrow> Register m meth pat h = (Some ErrRouterAlreadyCompiled, m)"
  by (simp add: Register_def)

lemma RegisterAll_compiled: "compiled m \<Longrightarrow> RegisterAll m regs = m"
  by (induction regs arbitrary: m) (auto simp: Register_compiled)

text \<open>
  Claim C9. After Compile, a Register call returns ErrRouterAlreadyCompiled and the matcher
  it was given; so does every later one, whatever was registered in between, and Match
  answers as before. Compile always returns nil, and a second Compile changes nothing.
\<close>

theorem C9_register_after_compile:
  "Register (snd (Compile m)) meth pat h = (Some ErrRouterAlreadyCompiled, snd (Compile m))
   \<and> Register (RegisterAll (snd (Compile m)) regs) meth pat h
       = (Some ErrRouterAlreadyCompiled, snd (Compile m))
   \<and> Match (snd (Register (RegisterAll (snd (Compile m)) regs) meth pat h)) meth' pth
       = Match (snd (Compile m)) meth' pth
   \<and> fst (Compile m) = None
   \<and> Compile (snd (Compile m)) = (None, snd (Compile m))"
proof -
  have c: "compiled (snd (Compile m))" by (rule compiled_Compile)
  have all: "RegisterAll (snd (Compile m)) regs = snd (Compile m)"
    using c by (rule RegisterAll_compiled)
  have reg: "Register (snd (Compile m)) meth pat h = (Some ErrRouterAlreadyCompiled, snd (Compile m))"
    using c by (rule Register_compiled)
  have again: "Compile (snd (Compile m)) = (None, snd (Compile m))"
    using c by (simp add: Compile_def)
  have nil: "fst (Compile m) = None" by (simp add: Compile_def)
  show ?thesis using all reg again nil by simp
qed

subsection \<open>Static patterns that share a prefix\<close>

text \<open>
  Claim C1, at the input where the code departs from it. GET /ab and then GET /abc are
  registered without error. insertStatic takes the child ab, a prefix of abc, and inserts
  the rest c below it; search accepts a child only at a segment boundary, so /abc is not
  found, before and after Compile, while /ab/c answers with the route of /abc.
\<close>

theorem C1_prefix_sibling_not_matched:
  "fst (Register newRadixMatcher ''GET'' ''/ab'' h1) = None
   \<and> fst (Register (snd (Register newRadixMatcher ''GET'' ''/ab'' h1)) ''GET'' ''/abc'' h2) = None
   \<and> Match (snd (Register (snd (Register newRadixMatcher ''GET'' ''/ab'' h1)) ''GET'' ''/abc'' h2))
         ''GET'' ''/abc'' = None
   \<and> Match (snd (Compile (snd (Register (snd (Register newRadixMatcher ''GET'' ''/ab'' h1)) ''GET'' ''/abc'' h2))))
         ''GET'' ''/abc'' = None
   \<and> Match (snd (Register (snd (Register newRadixMatcher ''GET'' ''/ab'' h1)) ''GET'' ''/abc'' h2))
         ''GET'' ''/ab/c'' = Some (\<lparr>httpMethod = ''GET'', pattern = ''/abc'', handler = h2\<rparr>, Map.empty)"
  by (simp add: matcher_eval)

subsection \<open>Segments after a wildcard\<close>

lemma IndexByte_less: "IndexByte xs c = Some i \<Longrightarrow> i < length xs"
  by (induction xs arbitrary: i) (auto split: if_splits)

lemma IndexByte_None: "IndexByte xs c = None \<longleftrightarrow> c \<notin> set xs"
  by (induction xs) auto

lemma IndexByte_append: "c \<in> set xs \<Longrightarrow> IndexByte (xs @ ys) c = IndexByte xs c"
  by (induction xs) auto

lemma splitPath_no_slash: "CHR ''/'' \<notin> set s \<Longrightarrow> splitPath s = (s, [])"
  using IndexByte_None[of s "CHR ''/''"] by (auto simp: splitPath_def)

lemma splitPath_segment: "CHR ''/'' \<notin> set s \<Longrightarrow> splitPath (s @ CHR ''/'' # t) = (s, t)"
  by (induction s) (auto simp: splitPath_def split: option.splits)

lemma splitPath_append:
  assumes "CHR ''/'' \<in> set q"
  shows "splitPath (q @ t) = (fst (splitPath q), snd (splitPath q) @ t)"
proof -
  obtain i where i: "IndexByte q (CHR ''/'') = Some i"
    using assms IndexByte_None[of q "CHR ''/''"] by (cases "IndexByte q (CHR ''/'')") auto
  then have "i < length q" by (rule IndexByte_less)
  moreover have "IndexByte (q @ t) (CHR ''/'') = Some i"
    using assms i by (simp add: IndexByte_append)
  moreover have "q \<noteq> []" using assms by auto
  ultimately show ?thesis using i by (simp add: splitPath_def)
qed

lemma boundary_snd_splitPath:
  assumes "boundary q" "CHR ''/'' \<in> set q"
  shows "boundary (snd (splitPath q))"
proof -
  obtain i where i: "IndexByte q (CHR ''/'') = Some i"
    using assms IndexByte_None[of q "CHR ''/''"] by (cases "IndexByte q (CHR ''/'')") auto
  then have "i < length q" by (rule IndexByte_less)
  have q: "q \<noteq> []" using assms by auto
  have "snd (splitPath q) = drop (i + 1) q" using i q by (simp add: splitPath_def)
  moreover have "drop (i + 1) q \<noteq> [] \<Longrightarrow> last (drop (i + 1) q) = last q"
    by simp
  ultimately show ?thesis using assms q by (cases "drop (i + 1) q = []") (auto simp: boundary_def)
qed

lemma boundary_TrimPrefix: "boundary pre \<Longrightarrow> boundary (TrimPrefix pre ''/'')"
  by (cases pre) (auto simp: boundary_def TrimPrefix_def HasPrefix_def split: if_splits)

lemma TrimPrefix_append_star:
  "TrimPrefix (pre @ CHR ''*'' # t) ''/'' = TrimPrefix pre ''/'' @ CHR ''*'' # t"
  by (cases pre) (auto simp: TrimPrefix_def HasPrefix_def)

lemma boundary_slash: "boundary q \<Longrightarrow> q \<noteq> [] \<Longrightarrow> CHR ''/'' \<in> set q"
  using last_in_set[of q] by (auto simp: boundary_def)

lemma insert_wildcard_tail:
  fixes name rest :: string and node node' :: "'h radixNode"
  assumes nm: "CHR ''/'' \<notin> set name"
  shows "\<forall>pre. pattern0 = pre @ CHR ''*'' # name \<longrightarrow> boundary pre \<longrightarrow>
           insertRoute node (pre @ CHR ''*'' # name @ CHR ''/'' # rest) r = insertRoute node pattern0 r"
    and "\<forall>pre. remaining = pre @ CHR ''*'' # name \<longrightarrow> boundary pre \<longrightarrow>
           insertStatic node segment (pre @ CHR ''*'' # name @ CHR ''/'' # rest) r
           = insertStatic node segment remaining r"
    and "\<forall>pre. remaining' = pre @ CHR ''*'' # name \<longrightarrow> boundary pre \<longrightarrow>
           insertParam node' pname (pre @ CHR ''*'' # name @ CHR ''/'' # rest) r'
           = insertParam node' pname remaining' r'"
proof (induction node pattern0 r and node segment remaining r and node' pname remaining' r'
    rule: insertRoute_insertStatic_insertParam.induct)
  case (1 node pattern0 r)
  show ?case
  proof (intro allI impI)
    fix pre
    assume p0: "pattern0 = pre @ CHR ''*'' # name" and b: "boundary pre"
    define q where "q = TrimPrefix pre ''/''"
    define W where "W = CHR ''*'' # name"
    have bq: "boundary q" using b by (simp add: q_def boundary_TrimPrefix)
    have tA: "TrimPrefix pattern0 ''/'' = q @ W"
      by (simp add: p0 q_def W_def TrimPrefix_append_star)
    have tB: "TrimPrefix (pre @ CHR ''*'' # name @ CHR ''/'' # rest) ''/'' = q @ W @ CHR ''/'' # rest"
      by (simp add: q_def W_def TrimPrefix_append_star)
    have Wns: "CHR ''/'' \<notin> set W" using nm by (simp add: W_def)
    show "insertRoute node (pre @ CHR ''*'' # name @ CHR ''/'' # rest) r = insertRoute node pattern0 r"
    proof (cases "q = []")
      case True
      have "splitPath W = (W, [])" using Wns by (rule splitPath_no_slash)
      moreover have "splitPath (W @ CHR ''/'' # rest) = (W, rest)" using Wns by (rule splitPath_segment)
      ultimately show ?thesis
        using True tA tB by (simp add: insertRoute.simps[of node] W_def HasPrefix_def)
    next
      case False
      then have sl: "CHR ''/'' \<in> set q" using bq by (simp add: boundary_slash)
      have sA: "splitPath (q @ W) = (fst (splitPath q), snd (splitPath q) @ W)"
        using sl by (rule splitPath_append)
      have sB: "splitPath (q @ W @ CHR ''/'' # rest) = (fst (splitPath q), snd (splitPath q) @ W @ CHR ''/'' # rest)"
        using sl by (rule splitPath_append)
      have bs: "boundary (snd (splitPath q))" using bq sl by (rule boundary_snd_splitPath)
      have ne: "q @ W \<noteq> []" using False by simp
      show ?thesis
      proof (cases "HasPrefix (fst (splitPath q)) '':''")
        case True
        have "insertParam node (drop 1 (fst (splitPath q))) (snd (splitPath q) @ CHR ''*'' # name @ CHR ''/'' # rest) r
            = insertParam node (drop 1 (fst (splitPath q))) (snd (splitPath q) @ W) r"
          using "1.IH"(1)[OF tA[symmetric] ne refl refl] True bs sA by (simp add: W_def)
        then show ?thesis
          using True tA tB sA sB by (simp add: insertRoute.simps[of node] W_def)
      next
        case notp: False
        show ?thesis
        proof (cases "HasPrefix (fst (splitPath q)) ''*''")
          case True
          then show ?thesis
            using notp tA tB sA sB by (simp add: insertRoute.simps[of node] W_def)
        next
          case False
          have "insertStatic node (fst (splitPath q)) (snd (splitPath q) @ CHR ''*'' # name @ CHR ''/'' # rest) r
              = insertStatic node (fst (splitPath q)) (snd (splitPath q) @ W) r"
            using "1.IH"(2)[OF tA[symmetric] ne refl refl] notp False bs sA by (simp add: W_def)
          then show ?thesis
            using notp False tA tB sA sB by (simp add: insertRoute.simps[of node] W_def)
        qed
      qed
    qed
  qed
next
  case (2 node segment remaining r)
  show ?case
  proof (intro allI impI)
    fix pre
    assume rm: "remaining = pre @ CHR ''*'' # name" and b: "boundary pre"
    have b2: "\<And>s. boundary (s @ ''/'' @ pre)" using b by (auto simp: boundary_def)
    show "insertStatic node segment (pre @ CHR ''*'' # name @ CHR ''/'' # rest) r
           = insertStatic node segment remaining r"
    proof (cases "findStaticChild (children node) segment")
      case None
      then show ?thesis using "2.IH"(1) rm b by (simp add: insertStatic.simps[of node])
    next
      case (Some i)
      show ?thesis
      proof (cases "length (path (children node ! i)) = length segment")
        case True
        then show ?thesis using "2.IH"(2)[OF Some refl] Some rm b
          by (simp add: insertStatic.simps[of node])
      next
        case False
        have "insertRoute (children node ! i)
                ((drop (length (path (children node ! i))) segment @ ''/'' @ pre) @ CHR ''*'' # name @ CHR ''/'' # rest) r
            = insertRoute (children node ! i)
                (drop (length (path (children node ! i))) segment @ ''/'' @ remaining) r"
          using "2.IH"(3)[OF Some refl False] rm b2 by simp
        then show ?thesis using False Some rm
          by (simp add: insertStatic.simps[of node])
      qed
    qed
  qed
next
  case (3 node name' remaining r)
  show ?case
  proof (intro allI impI)
    fix pre
    assume rm: "remaining = pre @ CHR ''*'' # name" and b: "boundary pre"
    show "insertParam node name' (pre @ CHR ''*'' # name @ CHR ''/'' # rest) r
           = insertParam node name' remaining r"
    proof (cases "findParamChild (children node) name'")
      case None
      then show ?thesis using "3.IH"(1) rm b by (simp add: insertParam.simps[of node])
    next
      case (Some i)
      then show ?thesis using "3.IH"(2)[OF Some] rm b by (simp add: insertParam.simps[of node])
    qed
  qed
qed

text \<open>
  Claim C4 as stated fails: Register accepts GET /files/*path/extra, and the route answers
  /files/a as if the segment extra were absent.
\<close>

theorem C4_counterexample:
  "fst (Register newRadixMatcher ''GET'' ''/files/*path/extra'' (0::nat)) = None
   \<and> Match (snd (Register newRadixMatcher ''GET'' ''/files/*path/extra'' (0::nat))) ''GET'' ''/files/a''
       = Some (\<lparr>httpMethod = ''GET'', pattern = ''/files/*path/extra'', handler = 0\<rparr>,
               [''path'' \<mapsto> ''a''])"
  by (simp add: matcher_eval)

text \<open>
  Claim C4, amended. insertRoute stops at a wildcard segment: whatever follows *name in
  the pattern is ignored, so inserting pre*name/rest into any node returns the same error
  and leaves the same tree as inserting pre*name with the same route, where pre is empty or
  ends in a slash and name has no slash. insertWildcard stores the route in a wildcard
  child that has no children and no wildcard of its own.
\<close>

theorem C4_wildcard_tail_ignored:
  "CHR ''/'' \<notin> set name \<Longrightarrow> boundary pre \<Longrightarrow>
     insertRoute node (pre @ CHR ''*'' # name @ CHR ''/'' # rest) r
       = insertRoute node (pre @ CHR ''*'' # name) r
     \<and> (wildcard node = None \<longrightarrow>
          insertWildcard node name r
            = (None, set_wildcard node (Some (RadixNode [] wildcardNode name (Some r) [] None 10))))"
  using insert_wildcard_tail(1)[of name "pre @ CHR ''*'' # name" node rest r]
  by (simp add: insertWildcard_def)

theorem C4_wildcard_tail_ignored_witness:
  "CHR ''/'' \<notin> set ''path'' \<and> boundary ''/files/''
   \<and> wildcard (RadixNode [] staticNode [] None [] None 0 :: nat radixNode) = None
   \<and> insertRoute (RadixNode [] staticNode [] None [] None 0) ''/files/*path/extra''
         \<lparr>httpMethod = ''GET'', pattern = ''/files/*path/extra'', handler = (0::nat)\<rparr>
       = insertRoute (RadixNode [] staticNode [] None [] None 0) ''/files/*path''
           \<lparr>httpMethod = ''GET'', pattern = ''/files/*path/extra'', handler = 0\<rparr>
   \<and> insertWildcard (RadixNode [] staticNode [] None [] None 0) ''path''
         \<lparr>httpMethod = ''GET'', pattern = ''/files/*path/extra'', handler = (0::nat)\<rparr>
       = (None, set_wildcard (RadixNode [] staticNode [] None [] None 0)
           (Some (RadixNode [] wildcardNode ''path''
             (Some \<lparr>httpMethod = ''GET'', pattern = ''/files/*path/extra'', handler = 0\<rparr>) [] None 10)))"
  using C4_wildcard_tail_ignored[of "''path''" "''/files/''"
      "RadixNode [] staticNode [] None [] None 0" "''extra''"
      "\<lparr>httpMethod = ''GET'', pattern = ''/files/*path/extra'', handler = (0::nat)\<rparr>"]
  by (simp add: boundary_def)

subsection \<open>Conflicts leave the tree as it was\<close>

lemma insertStatic_shape:
  "\<exists>cs. snd (insertStatic node segment remaining r) = set_children node cs"
  by (auto simp: insertStatic.simps[of node] Let_def split: option.splits prod.splits)

lemma insertParam_shape:
  "\<exists>cs. snd (insertParam node name remaining r) = set_children node cs"
  by (auto simp: insertParam.simps[of node] split: option.splits prod.splits)

lemma insertRoute_attrs:
  "path (snd (insertRoute node pat r)) = path node
   \<and> nType (snd (insertRoute node pat r)) = nType node
   \<and> paramName (snd (insertRoute node pat r)) = paramName node"
  using insertStatic_shape[of node "fst (splitPath (TrimPrefix pat ''/''))" "snd (splitPath (TrimPrefix pat ''/''))" r]
    insertParam_shape[of node "drop 1 (fst (splitPath (TrimPrefix pat ''/'')))" "snd (splitPath (TrimPrefix pat ''/''))" r]
  by (auto simp: insertRoute.simps[of node] Let_def insertWildcard_def set_route_def
      set_children_def set_wildcard_def)

lemma findStaticChild_cong:
  "map (\<lambda>c. (nType c, path c)) cs = map (\<lambda>c. (nType c, path c)) cs' \<Longrightarrow>
     findStaticChild cs seg = findStaticChild cs' seg"
  by (induction cs arbitrary: cs') auto

lemma findParamChild_cong:
  "map (\<lambda>c. (nType c, paramName c)) cs = map (\<lambda>c. (nType c, paramName c)) cs' \<Longrightarrow>
     findParamChild cs name = findParamChild cs' name"
  by (induction cs arbitrary: cs') auto

lemma findStaticChild_update:
  assumes "i < length cs" "nType c = nType (cs ! i)" "path c = path (cs ! i)"
  shows "findStaticChild (cs[i := c]) seg = findStaticChild cs seg"
proof (rule findStaticChild_cong)
  show "map (\<lambda>c. (nType c, path c)) (cs[i := c]) = map (\<lambda>c. (nType c, path c)) cs"
    using assms by (simp add: map_update list_update_same_conv)
qed

lemma findParamChild_update:
  assumes "i < length cs" "nType c = nType (cs ! i)" "paramName c = paramName (cs ! i)"
  shows "findParamChild (cs[i := c]) name = findParamChild cs name"
proof (rule findParamChild_cong)
  show "map (\<lambda>c. (nType c, paramName c)) (cs[i := c]) = map (\<lambda>c. (nType c, paramName c)) cs"
    using assms by (simp add: map_update list_update_same_conv)
qed

lemma findStaticChild_append:
  "findStaticChild cs seg = None \<Longrightarrow> nType c = staticNode \<Longrightarrow> HasPrefix seg (path c) \<Longrightarrow>
     findStaticChild (cs @ [c]) seg = Some (length cs)"
  by (induction cs) (auto split: if_splits)

lemma findParamChild_append:
  "findParamChild cs name = None \<Longrightarrow> nType c = paramNode \<Longrightarrow> paramName c = name \<Longrightarrow>
     findParamChild (cs @ [c]) name = Some (length cs)"
  by (induction cs) (auto split: if_splits)

lemma set_children_simps [simp]:
  "children (set_children n cs) = cs"
  "set_children (set_children n cs) cs' = set_children n cs'"
  "set_children n (children n) = n"
  "route (set_children n cs) = route n"
  "wildcard (set_children n cs) = wildcard n"
  by (simp_all add: set_children_def)

lemma insert_twice:
  fixes node node' node'' :: "'h radixNode"
  shows "\<forall>r2. insertRoute (snd (insertRoute node pattern0 r)) pattern0 r2
            = (Some ErrConflictingRoutes, snd (insertRoute node pattern0 r))"
    and "\<forall>r2. insertStatic (snd (insertStatic node' segment remaining r')) segment remaining r2
            = (Some ErrConflictingRoutes, snd (insertStatic node' segment remaining r'))"
    and "\<forall>r2. insertParam (snd (insertParam node'' name remaining' r'')) name remaining' r2
            = (Some ErrConflictingRoutes, snd (insertParam node'' name remaining' r''))"
proof (induction node pattern0 r and node' segment remaining r' and node'' name remaining' r''
    rule: insertRoute_insertStatic_insertParam.induct)
  case (1 node pattern0 r)
  define pat where "pat = TrimPrefix pattern0 ''/''"
  define seg where "seg = fst (splitPath pat)"
  define rem where "rem = snd (splitPath pat)"
  show ?case
  proof
    fix r2
    show "insertRoute (snd (insertRoute node pattern0 r)) pattern0 r2
            = (Some ErrConflictingRoutes, snd (insertRoute node pattern0 r))"
    proof (cases "pat = []")
      case True
      then show ?thesis
        by (simp add: insertRoute.simps[of _ pattern0] pat_def[symmetric] set_route_def)
    next
      case ne: False
      show ?thesis
      proof (cases "HasPrefix seg '':''")
        case True
        have "insertRoute node pattern0 r = insertParam node (drop 1 seg) rem r"
          using ne True by (simp add: insertRoute.simps[of node] pat_def[symmetric] seg_def rem_def)
        moreover have "\<And>n. insertRoute n pattern0 r2 = insertParam n (drop 1 seg) rem r2"
          using ne True by (simp add: insertRoute.simps[of _ pattern0] pat_def[symmetric] seg_def rem_def)
        ultimately show ?thesis
          using "1.IH"(1)[OF pat_def ne seg_def rem_def True] by simp
      next
        case np: False
        show ?thesis
        proof (cases "HasPrefix seg ''*''")
          case True
          have "insertRoute node pattern0 r = insertWildcard node (drop 1 seg) r"
            using ne np True by (simp add: insertRoute.simps[of node] pat_def[symmetric] seg_def rem_def)
          moreover have "\<And>n. insertRoute n pattern0 r2 = insertWildcard n (drop 1 seg) r2"
            using ne np True by (simp add: insertRoute.simps[of _ pattern0] pat_def[symmetric] seg_def rem_def)
          ultimately show ?thesis
            by (simp add: insertWildcard_def set_wildcard_def)
        next
          case False
          have "insertRoute node pattern0 r = insertStatic node seg rem r"
            using ne np False by (simp add: insertRoute.simps[of node] pat_def[symmetric] seg_def rem_def)
          moreover have "\<And>n. insertRoute n pattern0 r2 = insertStatic n seg rem r2"
            using ne np False by (simp add: insertRoute.simps[of _ pattern0] pat_def[symmetric] seg_def rem_def)
          ultimately show ?thesis
            using "1.IH"(2)[OF pat_def ne seg_def rem_def np False] by simp
        qed
      qed
    qed
  qed
next
  case (2 node segment remaining r)
  show ?case
  proof
    fix r2
    show "insertStatic (snd (insertStatic node segment remaining r)) segment remaining r2
            = (Some ErrConflictingRoutes, snd (insertStatic node segment remaining r))"
    proof (cases "findStaticChild (children node) segment")
      case None
      define new where "new = snd (insertRoute (RadixNode segment staticNode [] None [] None 100) remaining r)"
      have first: "snd (insertStatic node segment remaining r) = set_children node (children node @ [new])"
        using None by (simp add: insertStatic.simps[of node] new_def split: prod.splits)
      have attrs: "nType new = staticNode" "path new = segment"
        using insertRoute_attrs[of "RadixNode segment staticNode [] None [] None 100" remaining r]
        by (simp_all add: new_def)
      have found: "findStaticChild (children node @ [new]) segment = Some (length (children node))"
        using None attrs by (simp add: findStaticChild_append HasPrefix_def)
      have again: "insertRoute new remaining r2 = (Some ErrConflictingRoutes, new)"
        using "2.IH"(1)[OF None] by (simp add: new_def)
      show ?thesis
        unfolding first
        using found attrs again
        by (simp add: insertStatic.simps[of "set_children node (children node @ [new])"])
    next
      case (Some i)
      have i: "i < length (children node)" using Some by (rule findStaticChild_less)
      define child where "child = children node ! i"
      define pat where "pat = (if length (path child) = length segment then remaining
                               else drop (length (path child)) segment @ ''/'' @ remaining)"
      define child' where "child' = snd (insertRoute child pat r)"
      have first: "snd (insertStatic node segment remaining r)
                     = set_children node ((children node)[i := child'])"
        using Some
        by (simp add: insertStatic.simps[of node] child_def[symmetric] child'_def pat_def
            split: prod.splits)
      have attrs: "nType child' = nType child" "path child' = path child"
        using insertRoute_attrs[of child pat r] by (simp_all add: child'_def)
      have found: "findStaticChild ((children node)[i := child']) segment = Some i"
        using Some i attrs by (simp add: findStaticChild_update child_def)
      have again1: "length (path child) = length segment \<Longrightarrow>
                      insertRoute child' remaining r2 = (Some ErrConflictingRoutes, child')"
        using "2.IH"(2)[OF Some child_def] by (simp add: child'_def pat_def)
      have again2: "length (path child) \<noteq> length segment \<Longrightarrow>
                      insertRoute child' (drop (length (path child)) segment @ ''/'' @ remaining) r2
                        = (Some ErrConflictingRoutes, child')"
        using "2.IH"(3)[OF Some child_def] by (simp add: child'_def pat_def)
      show ?thesis
        unfolding first
        using found attrs again1 again2 i
        by (simp add: insertStatic.simps[of "set_children node ((children node)[i := child'])"])
    qed
  qed
next
  case (3 node name remaining r)
  show ?case
  proof
    fix r2
    show "insertParam (snd (insertParam node name remaining r)) name remaining r2
            = (Some ErrConflictingRoutes, snd (insertParam node name remaining r))"
    proof (cases "findParamChild (children node) name")
      case None
      define new where "new = snd (insertRoute (RadixNode [] paramNode name None [] None 50) remaining r)"
      have first: "snd (insertParam node name remaining r) = set_children node (children node @ [new])"
        using None by (simp add: insertParam.simps[of node] new_def split: prod.splits)
      have attrs: "nType new = paramNode" "paramName new = name"
        using insertRoute_attrs[of "RadixNode [] paramNode name None [] None 50" remaining r]
        by (simp_all add: new_def)
      have found: "findParamChild (children node @ [new]) name = Some (length (children node))"
        using None attrs by (simp add: findParamChild_append)
      have again: "insertRoute new remaining r2 = (Some ErrConflictingRoutes, new)"
        using "3.IH"(1)[OF None] by (simp add: new_def)
      show ?thesis
        unfolding first
        using found again
        by (simp add: insertParam.simps[of "set_children node (children node @ [new])"])
    next
      case (Some i)
      have i: "i < length (children node)" using Some by (rule findParamChild_less)
      define child' where "child' = snd (insertRoute (children node ! i) remaining r)"
      have first: "snd (insertParam node name remaining r)
                     = set_children node ((children node)[i := child'])"
        using Some by (simp add: insertParam.simps[of node] child'_def split: prod.splits)
      have attrs: "nType child' = nType (children node ! i)" "paramName child' = paramName (children node ! i)"
        using insertRoute_attrs[of "children node ! i" remaining r] by (simp_all add: child'_def)
      have found: "findParamChild ((children node)[i := child']) name = Some i"
        using Some i attrs by (simp add: findParamChild_update)
      have again: "insertRoute child' remaining r2 = (Some ErrConflictingRoutes, child')"
        using "3.IH"(2)[OF Some] by (simp add: child'_def)
      show ?thesis
        unfolding first
        using found again i
        by (simp add: insertParam.simps[of "set_children node ((children node)[i := child'])"])
    qed
  qed
qed

lemma insert_leaf_ok:
  fixes node node' node'' :: "'h radixNode"
  shows "children node = [] \<and> route node = None \<and> wildcard node = None \<longrightarrow>
           fst (insertRoute node pattern0 r) = None"
    and "children node' = [] \<longrightarrow> fst (insertStatic node' segment remaining r') = None"
    and "children node'' = [] \<longrightarrow> fst (insertParam node'' name remaining' r'') = None"
proof (induction node pattern0 r and node' segment remaining r' and node'' name remaining' r''
    rule: insertRoute_insertStatic_insertParam.induct)
  case (1 node pattern0 r)
  then show ?case
    by (simp add: insertRoute.simps[of node] Let_def insertWildcard_def)
next
  case (2 node segment remaining r)
  then show ?case
    by (auto simp: insertStatic.simps[of node] split: prod.splits)
next
  case (3 node name remaining r)
  then show ?case
    by (auto simp: insertParam.simps[of node] split: prod.splits)
qed

lemma insert_error_unchanged:
  fixes node node' node'' :: "'h radixNode"
  shows "fst (insertRoute node pattern0 r) \<noteq> None \<longrightarrow> snd (insertRoute node pattern0 r) = node"
    and "fst (insertStatic node' segment remaining r') \<noteq> None \<longrightarrow>
           snd (insertStatic node' segment remaining r') = node'"
    and "fst (insertParam node'' name remaining' r'') \<noteq> None \<longrightarrow>
           snd (insertParam node'' name remaining' r'') = node''"
proof (induction node pattern0 r and node' segment remaining r' and node'' name remaining' r''
    rule: insertRoute_insertStatic_insertParam.induct)
  case (1 node pattern0 r)
  then show ?case
    by (simp add: insertRoute.simps[of node] Let_def insertWildcard_def)
next
  case (2 node segment remaining r)
  show ?case
  proof (cases "findStaticChild (children node) segment")
    case None
    have "fst (insertRoute (RadixNode segment staticNode [] None [] None 100) remaining r) = None"
      using insert_leaf_ok(1)[of "RadixNode segment staticNode [] None [] None 100" remaining r]
      by simp
    then show ?thesis using None
      by (auto simp: insertStatic.simps[of node] split: prod.splits)
  next
    case (Some i)
    then show ?thesis using "2.IH"(2)[OF Some refl] "2.IH"(3)[OF Some refl]
      by (auto simp: insertStatic.simps[of node] Let_def split: prod.splits)
  qed
next
  case (3 node name remaining r)
  show ?case
  proof (cases "findParamChild (children node) name")
    case None
    have "fst (insertRoute (RadixNode [] paramNode name None [] None 50) remaining r) = None"
      using insert_leaf_ok(1)[of "RadixNode [] paramNode name None [] None 50" remaining r]
      by simp
    then show ?thesis using None
      by (auto simp: insertParam.simps[of node] split: prod.splits)
  next
    case (Some i)
    then show ?thesis using "3.IH"(2)[OF Some]
      by (auto simp: insertParam.simps[of node] split: prod.splits)
  qed
qed

lemma Register_twice:
  assumes "\<not> compiled m"
  shows "Register (snd (Register m meth pat h1)) meth pat h2
           = (Some ErrConflictingRoutes, snd (Register m meth pat h1))"
proof -
  define tree where "tree = (case trees m meth of
                       None \<Rightarrow> RadixNode [] staticNode [] None [] None 0
                     | Some t \<Rightarrow> t)"
  define r1 where "r1 = \<lparr>httpMethod = meth, pattern = pat, handler = h1\<rparr>"
  define r2 where "r2 = \<lparr>httpMethod = meth, pattern = pat, handler = h2\<rparr>"
  define tree' where "tree' = snd (insertRoute tree pat r1)"
  define m1 where "m1 = m\<lparr>trees := (trees m)(meth \<mapsto> tree')\<rparr>"
  have first: "snd (Register m meth pat h1) = m1"
    using assms
    by (simp add: Register_def tree_def[symmetric] r1_def[symmetric] tree'_def m1_def
        split: prod.splits)
  have again: "insertRoute tree' pat r2 = (Some ErrConflictingRoutes, tree')"
    using insert_twice(1)[of tree pat r1] by (simp add: tree'_def)
  have "Register m1 meth pat h2 = (Some ErrConflictingRoutes, m1)"
    using assms again by (simp add: Register_def m1_def r2_def[symmetric])
  then show ?thesis using first by simp
qed

lemma Register_error_unchanged:
  assumes "fst (Register m meth pat h) \<noteq> None"
  shows "snd (Register m meth pat h) = m"
proof (cases "compiled m")
  case True
  then show ?thesis by (simp add: Register_def)
next
  case nc: False
  define r where "r = \<lparr>httpMethod = meth, pattern = pat, handler = h\<rparr>"
  show ?thesis
  proof (cases "trees m meth")
    case None
    have "fst (insertRoute (RadixNode [] staticNode [] None [] None 0) pat r) = None"
      using insert_leaf_ok(1)[of "RadixNode [] staticNode [] None [] None 0" pat r] by simp
    then have "fst (Register m meth pat h) = None"
      using nc None by (auto simp: Register_def r_def[symmetric] split: prod.splits)
    then show ?thesis using assms by simp
  next
    case (Some t)
    have e: "fst (insertRoute t pat r) \<noteq> None"
      using assms nc Some by (simp add: Register_def r_def[symmetric] split: prod.splits)
    then have "snd (insertRoute t pat r) = t"
      using insert_error_unchanged(1)[of t pat r] by simp
    moreover have "(trees m)(meth \<mapsto> t) = trees m"
      using Some by (simp add: fun_upd_idem)
    ultimately show ?thesis
      using nc Some by (auto simp: Register_def r_def[symmetric] split: prod.splits)
  qed
qed

text \<open>
  Claim C8. On a matcher that is not compiled, a second Register with the same method and
  pattern returns ErrConflictingRoutes and the matcher the first call left, whatever the
  two handlers are. Any Register call that returns ErrConflictingRoutes returns the matcher
  it was given: no tree, node, child, wildcard or route is added or changed.
\<close>

theorem C8_conflict_atomic:
  "(\<not> compiled m \<longrightarrow>
      Register (snd (Register m meth pat h1)) meth pat h2
        = (Some ErrConflictingRoutes, snd (Register m meth pat h1)))
   \<and> (fst (Register m meth pat h) = Some ErrConflictingRoutes \<longrightarrow>
        snd (Register m meth pat h) = m)"
  using Register_twice[of m meth pat h1 h2] Register_error_unchanged[of m meth pat h]
  by simp

theorem C8_conflict_atomic_witness:
  "\<not> compiled (newRadixMatcher :: nat radixMatcher)
   \<and> Register (snd (Register newRadixMatcher ''GET'' ''/users'' (0::nat))) ''GET'' ''/users'' 7
       = (Some ErrConflictingRoutes, snd (Register newRadixMatcher ''GET'' ''/users'' 0))
   \<and> fst (Register (snd (Register newRadixMatcher ''GET'' ''/users'' (0::nat))) ''GET'' ''/users'' 7)
       = Some ErrConflictingRoutes
   \<and> snd (Register (snd (Register newRadixMatcher ''GET'' ''/users'' (0::nat))) ''GET'' ''/users'' 7)
       = snd (Register newRadixMatcher ''GET'' ''/users'' 0)"
proof -
  have nc: "\<not> compiled (newRadixMatcher :: nat radixMatcher)"
    by (simp add: newRadixMatcher_def)
  have twice: "Register (snd (Register newRadixMatcher ''GET'' ''/users'' (0::nat))) ''GET'' ''/users'' 7
                 = (Some ErrConflictingRoutes, snd (Register newRadixMatcher ''GET'' ''/users'' 0))"
    using C8_conflict_atomic[of newRadixMatcher "''GET''" "''/users''" "0::nat" "7::nat" "0::nat"] nc
    by simp
  then have err: "fst (Register (snd (Register newRadixMatcher ''GET'' ''/users'' (0::nat))) ''GET'' ''/users'' 7)
                 = Some ErrConflictingRoutes"
    by simp
  have same: "snd (Register (snd (Register newRadixMatcher ''GET'' ''/users'' (0::nat))) ''GET'' ''/users'' 7)
                 = snd (Register newRadixMatcher ''GET'' ''/users'' 0)"
    using C8_conflict_atomic[of "snd (Register newRadixMatcher ''GET'' ''/users'' (0::nat))"
        "''GET''" "''/users''" "7::nat" "7::nat" "7::nat"] err
    by simp
  show ?thesis using nc twice err same by simp
qed

subsection \<open>Static before parameter before wildcard\<close>

lemma searchStatic_filter: "searchStatic (filter isStatic cs) pth ps = searchStatic cs pth ps"
  by (induction cs arbitrary: ps) (auto simp: isStatic_def split: prod.splits option.splits)

lemma searchParam_filter: "searchParam (filter isParam cs) pth ps = searchParam cs pth ps"
  by (induction cs arbitrary: ps) (auto simp: isParam_def split: prod.splits option.splits)

lemma search_order:
  assumes "filter isStatic cs' = filter isStatic cs" "filter isParam cs' = filter isParam cs"
  shows "search (RadixNode p t pn rt cs' w pr) pth ps = search (RadixNode p t pn rt cs w pr) pth ps"
proof -
  have "\<And>q. searchStatic cs' pth q = searchStatic cs pth q"
    using assms(1) searchStatic_filter[of cs' pth] searchStatic_filter[of cs pth] by simp
  moreover have "\<And>q. searchParam cs' pth q = searchParam cs pth q"
    using assms(2) searchParam_filter[of cs' pth] searchParam_filter[of cs pth] by simp
  ultimately show ?thesis by (simp split: prod.splits option.splits)
qed

lemma searchStatic_skip:
  "\<not> (nType a = staticNode \<and> accepts a pth) \<Longrightarrow> searchStatic (a # cs) pth ps = searchStatic cs pth ps"
  unfolding accepts_def by (simp only: searchStatic.simps if_False)

lemma searchStatic_take:
  "nType c = staticNode \<Longrightarrow> accepts c pth \<Longrightarrow> search c (afterLabel c pth) ps = (Some r, q) \<Longrightarrow>
     searchStatic (c # cs) pth ps = (Some r, q)"
  unfolding accepts_def afterLabel_def by (simp only: searchStatic.simps) simp

lemma searchStatic_unique:
  assumes "nType c = staticNode" "accepts c pth"
    and "search c (afterLabel c pth) ps = (Some r, q)"
  shows "c \<in> set cs \<Longrightarrow> (\<forall>c' \<in> set cs. nType c' = staticNode \<and> accepts c' pth \<longrightarrow> c' = c) \<Longrightarrow>
     searchStatic cs pth ps = (Some r, q)"
proof (induction cs)
  case Nil
  then show ?case by simp
next
  case (Cons a cs)
  show ?case
  proof (cases "a = c")
    case True
    show ?thesis unfolding True using assms by (rule searchStatic_take)
  next
    case False
    have skip: "\<not> (nType a = staticNode \<and> accepts a pth)"
      using Cons.prems(2) False by auto
    have mem: "c \<in> set cs" using Cons.prems(1) False by auto
    have rest: "\<forall>c' \<in> set cs. nType c' = staticNode \<and> accepts c' pth \<longrightarrow> c' = c"
      using Cons.prems(2) by auto
    have "searchStatic cs pth ps = (Some r, q)" using mem rest by (rule Cons.IH)
    then show ?thesis using searchStatic_skip[OF skip, of cs ps] by simp
  qed
qed

lemma searchStatic_none:
  "(\<forall>c' \<in> set cs. \<not> (nType c' = staticNode \<and> accepts c' pth)) \<Longrightarrow>
     searchStatic cs pth ps = (None, ps)"
proof (induction cs)
  case Nil
  show ?case by simp
next
  case (Cons a cs)
  have "\<not> (nType a = staticNode \<and> accepts a pth)" using Cons.prems by auto
  then have "searchStatic (a # cs) pth ps = searchStatic cs pth ps" by (rule searchStatic_skip)
  moreover have "searchStatic cs pth ps = (None, ps)" using Cons.IH Cons.prems by auto
  ultimately show ?case by simp
qed

lemma static_child_wins:
  assumes "pth \<noteq> []" "c \<in> set cs" "nType c = staticNode" "accepts c pth"
    and "\<forall>c' \<in> set cs. nType c' = staticNode \<and> accepts c' pth \<longrightarrow> c' = c"
    and "fst (search c (afterLabel c pth) ps) \<noteq> None"
  shows "search (RadixNode p t pn rt cs w pr) pth ps = search c (afterLabel c pth) ps"
proof -
  obtain r q where sq: "search c (afterLabel c pth) ps = (Some r, q)"
    using assms(6) by (cases "search c (afterLabel c pth) ps") auto
  have "searchStatic cs pth ps = (Some r, q)"
    using assms(3,4) sq assms(2,5) by (rule searchStatic_unique)
  then show ?thesis using assms(1) sq by simp
qed

lemma param_child_wins:
  assumes "pth \<noteq> []" "\<forall>c' \<in> set cs. \<not> (nType c' = staticNode \<and> accepts c' pth)"
    and "filter isParam cs = c # rest" "fst (splitPath pth) \<noteq> []"
    and "fst (search c (snd (splitPath pth)) (ps(paramName c \<mapsto> fst (splitPath pth)))) \<noteq> None"
  shows "search (RadixNode p t pn rt cs w pr) pth ps
           = search c (snd (splitPath pth)) (ps(paramName c \<mapsto> fst (splitPath pth)))"
proof -
  have s: "searchStatic cs pth ps = (None, ps)" using assms(2) by (rule searchStatic_none)
  have "c \<in> set (filter isParam cs)" using assms(3) by simp
  then have pc: "nType c = paramNode" by (simp add: isParam_def)
  have sp: "searchParam cs pth ps = searchParam (c # rest) pth ps"
    using searchParam_filter[of cs pth ps] assms(3) by simp
  obtain r q where sq: "search c (snd (splitPath pth)) (ps(paramName c \<mapsto> fst (splitPath pth))) = (Some r, q)"
    using assms(5)
    by (cases "search c (snd (splitPath pth)) (ps(paramName c \<mapsto> fst (splitPath pth)))") auto
  have "searchParam (c # rest) pth ps = (Some r, q)"
    using pc assms(4) sq by simp
  then show ?thesis using s sp assms(1) sq by simp
qed

text \<open>
  Claim C5, at the input where the code departs from it. GET /:id, GET /ab and GET /abc
  are registered in this order, each without error. insertStatic puts the route of /abc
  below the child ab (the defect of claim C1: no edge is split), where search cannot reach
  it, so the static candidate /abc loses /abc to the parameter route, before and after
  Compile. With /abc registered before /ab the static route wins: the winner depends on
  the order of registration. The example of the claim itself holds: with GET /users/:id and
  GET /users/me registered in either order, before or after Compile, /users/me returns the
  static route with no parameters and /users/42 the parameter route with id = 42.
\<close>

theorem C5_static_shadowed_by_parameter:
  "fst (Register newRadixMatcher ''GET'' ''/:id'' hp) = None
   \<and> fst (Register (snd (Register newRadixMatcher ''GET'' ''/:id'' hp)) ''GET'' ''/ab'' h1) = None
   \<and> fst (Register (snd (Register (snd (Register newRadixMatcher ''GET'' ''/:id'' hp))
            ''GET'' ''/ab'' h1)) ''GET'' ''/abc'' h2) = None
   \<and> Match (abThree hp h1 h2) ''GET'' ''/abc''
       = Some (\<lparr>httpMethod = ''GET'', pattern = ''/:id'', handler = hp\<rparr>, [''id'' \<mapsto> ''abc''])
   \<and> Match (snd (Compile (abThree hp h1 h2))) ''GET'' ''/abc''
       = Some (\<lparr>httpMethod = ''GET'', pattern = ''/:id'', handler = hp\<rparr>, [''id'' \<mapsto> ''abc''])
   \<and> Match (abThreeRev hp h1 h2) ''GET'' ''/abc''
       = Some (\<lparr>httpMethod = ''GET'', pattern = ''/abc'', handler = h2\<rparr>, Map.empty)
   \<and> Match (snd (Compile (abThreeRev hp h1 h2))) ''GET'' ''/abc''
       = Some (\<lparr>httpMethod = ''GET'', pattern = ''/abc'', handler = h2\<rparr>, Map.empty)
   \<and> Match (usersTwo hp hs) ''GET'' ''/users/me''
       = Some (\<lparr>httpMethod = ''GET'', pattern = ''/users/me'', handler = hs\<rparr>, Map.empty)
   \<and> Match (usersTwo hp hs) ''GET'' ''/users/42''
       = Some (\<lparr>httpMethod = ''GET'', pattern = ''/users/:id'', handler = hp\<rparr>, [''id'' \<mapsto> ''42''])
   \<and> Match (usersTwoRev hp hs) ''GET'' ''/users/me''
       = Some (\<lparr>httpMethod = ''GET'', pattern = ''/users/me'', handler = hs\<rparr>, Map.empty)
   \<and> Match (usersTwoRev hp hs) ''GET'' ''/users/42''
       = Some (\<lparr>httpMethod = ''GET'', pattern = ''/users/:id'', handler = hp\<rparr>, [''id'' \<mapsto> ''42''])
   \<and> Match (snd (Compile (usersTwo hp hs))) ''GET'' ''/users/me''
       = Some (\<lparr>httpMethod = ''GET'', pattern = ''/users/me'', handler = hs\<rparr>, Map.empty)
   \<and> Match (snd (Compile (usersTwo hp hs))) ''GET'' ''/users/42''
       = Some (\<lparr>httpMethod = ''GET'', pattern = ''/users/:id'', handler = hp\<rparr>, [''id'' \<mapsto> ''42''])
   \<and> Match (snd (Compile (usersTwoRev hp hs))) ''GET'' ''/users/me''
       = Some (\<lparr>httpMethod = ''GET'', pattern = ''/users/me'', handler = hs\<rparr>, Map.empty)
   \<and> Match (snd (Compile (usersTwoRev hp hs))) ''GET'' ''/users/42''
       = Some (\<lparr>httpMethod = ''GET'', pattern = ''/users/:id'', handler = hp\<rparr>, [''id'' \<mapsto> ''42''])"
proof -
  have r1: "fst (Register newRadixMatcher ''GET'' ''/:id'' hp) = None"
    by (simp add: matcher_eval)
  have r2: "fst (Register (snd (Register newRadixMatcher ''GET'' ''/:id'' hp)) ''GET'' ''/ab'' h1) = None"
    by (simp add: matcher_eval)
  have r3: "fst (Register (snd (Register (snd (Register newRadixMatcher ''GET'' ''/:id'' hp))
            ''GET'' ''/ab'' h1)) ''GET'' ''/abc'' h2) = None"
    by (simp add: matcher_eval)
  have s1: "Match (abThree hp h1 h2) ''GET'' ''/abc''
       = Some (\<lparr>httpMethod = ''GET'', pattern = ''/:id'', handler = hp\<rparr>, [''id'' \<mapsto> ''abc''])"
    by (simp add: abThree_def matcher_eval)
  have s2: "Match (snd (Compile (abThree hp h1 h2))) ''GET'' ''/abc''
       = Some (\<lparr>httpMethod = ''GET'', pattern = ''/:id'', handler = hp\<rparr>, [''id'' \<mapsto> ''abc''])"
    by (simp add: abThree_def matcher_eval)
  have s3: "Match (abThreeRev hp h1 h2) ''GET'' ''/abc''
       = Some (\<lparr>httpMethod = ''GET'', pattern = ''/abc'', handler = h2\<rparr>, Map.empty)"
    by (simp add: abThreeRev_def matcher_eval)
  have s4: "Match (snd (Compile (abThreeRev hp h1 h2))) ''GET'' ''/abc''
       = Some (\<lparr>httpMethod = ''GET'', pattern = ''/abc'', handler = h2\<rparr>, Map.empty)"
    by (simp add: abThreeRev_def matcher_eval)
  have ex1: "Match (usersTwo hp hs) ''GET'' ''/users/me''
       = Some (\<lparr>httpMethod = ''GET'', pattern = ''/users/me'', handler = hs\<rparr>, Map.empty)"
    by (simp add: usersTwo_def matcher_eval)
  have ex2: "Match (usersTwo hp hs) ''GET'' ''/users/42''
       = Some (\<lparr>httpMethod = ''GET'', pattern = ''/users/:id'', handler = hp\<rparr>, [''id'' \<mapsto> ''42''])"
    by (simp add: usersTwo_def matcher_eval)
  have ex3: "Match (usersTwoRev hp hs) ''GET'' ''/users/me''
       = Some (\<lparr>httpMethod = ''GET'', pattern = ''/users/me'', handler = hs\<rparr>, Map.empty)"
    by (simp add: usersTwoRev_def matcher_eval)
  have ex4: "Match (usersTwoRev hp hs) ''GET'' ''/users/42''
       = Some (\<lparr>httpMethod = ''GET'', pattern = ''/users/:id'', handler = hp\<rparr>, [''id'' \<mapsto> ''42''])"
    by (simp add: usersTwoRev_def matcher_eval)
  have ex5: "Match (snd (Compile (usersTwo hp hs))) ''GET'' ''/users/me''
       = Some (\<lparr>httpMethod = ''GET'', pattern = ''/users/me'', handler = hs\<rparr>, Map.empty)"
    by (simp add: usersTwo_def matcher_eval)
  have ex6: "Match (snd (Compile (usersTwo hp hs))) ''GET'' ''/users/42''
       = Some (\<lparr>httpMethod = ''GET'', pattern = ''/users/:id'', handler = hp\<rparr>, [''id'' \<mapsto> ''42''])"
    by (simp add: usersTwo_def matcher_eval)
  have ex7: "Match (snd (Compile (usersTwoRev hp hs))) ''GET'' ''/users/me''
       = Some (\<lparr>httpMethod = ''GET'', pattern = ''/users/me'', handler = hs\<rparr>, Map.empty)"
    by (simp add: usersTwoRev_def matcher_eval)
  have ex8: "Match (snd (Compile (usersTwoRev hp hs))) ''GET'' ''/users/42''
       = Some (\<lparr>httpMethod = ''GET'', pattern = ''/users/:id'', handler = hp\<rparr>, [''id'' \<mapsto> ''42''])"
    by (simp add: usersTwoRev_def matcher_eval)
  show ?thesis
    by (intro conjI r1 r2 r3 s1 s2 s3 s4 ex1 ex2 ex3 ex4 ex5 ex6 ex7 ex8)
qed

subsection \<open>A tree that holds one route\<close>

lemma joinSlash_Cons: "joinSlash (x # xs) = x @ (if xs = [] then [] else ''/'' @ joinSlash xs)"
  by (cases xs) auto

lemma splitPath_join:
  "x \<noteq> [] \<Longrightarrow> CHR ''/'' \<notin> set x \<Longrightarrow> splitPath (joinSlash (x # xs)) = (x, joinSlash xs)"
  using splitPath_no_slash[of x] splitPath_segment[of x "joinSlash xs"]
  by (simp add: joinSlash_Cons)

lemma TrimPrefix_seg:
  "x \<noteq> [] \<Longrightarrow> CHR ''/'' \<notin> set x \<Longrightarrow> TrimPrefix (x @ t) ''/'' = x @ t"
  by (cases x) (auto simp: TrimPrefix_def HasPrefix_def)

lemma TrimPrefix_slash: "TrimPrefix (CHR ''/'' # t) ''/'' = t"
  by (simp add: TrimPrefix_def HasPrefix_def)

lemma TrimPrefix_Nil: "TrimPrefix [] p = []"
  by (simp add: TrimPrefix_def)

lemma leaf_shape: "isLeaf n \<Longrightarrow> n = RadixNode (path n) (nType n) (paramName n) None [] None (priority n)"
  by (cases n) (simp add: isLeaf_def)

text \<open>Inserting a pattern that starts with a static segment into a leaf.\<close>

lemma insert_leaf_static:
  assumes "isLeaf n" "x \<noteq> []" "CHR ''/'' \<notin> set x" "\<not> HasPrefix x '':''" "\<not> HasPrefix x ''*''"
  shows "snd (insertRoute n (joinSlash (x # xs)) r)
           = set_children n [snd (insertRoute (RadixNode x staticNode [] None [] None 100) (joinSlash xs) r)]"
proof -
  have t: "TrimPrefix (joinSlash (x # xs)) ''/'' = joinSlash (x # xs)"
    using assms(2,3) by (simp add: joinSlash_Cons TrimPrefix_seg)
  have ne: "joinSlash (x # xs) \<noteq> []" using assms(2) by (simp add: joinSlash_Cons)
  have sp: "splitPath (joinSlash (x # xs)) = (x, joinSlash xs)"
    using assms(2,3) by (rule splitPath_join)
  have "insertRoute n (joinSlash (x # xs)) r = insertStatic n x (joinSlash xs) r"
    using t ne sp assms(4,5) by (simp add: insertRoute.simps[of n])
  moreover have "children n = []" using assms(1) by (simp add: isLeaf_def)
  ultimately show ?thesis
    by (simp add: insertStatic.simps[of n] split: prod.splits)
qed

lemma insert_leaf_param:
  assumes "isLeaf n" "CHR ''/'' \<notin> set name"
  shows "snd (insertRoute n (joinSlash ((CHR '':'' # name) # xs)) r)
           = set_children n [snd (insertRoute (RadixNode [] paramNode name None [] None 50) (joinSlash xs) r)]"
proof -
  define x where "x = CHR '':'' # name"
  have x: "x \<noteq> []" "CHR ''/'' \<notin> set x" "HasPrefix x '':''"
    using assms(2) by (simp_all add: x_def HasPrefix_def)
  have t: "TrimPrefix (joinSlash (x # xs)) ''/'' = joinSlash (x # xs)"
    using x by (simp add: joinSlash_Cons TrimPrefix_seg)
  have ne: "joinSlash (x # xs) \<noteq> []" using x by (simp add: joinSlash_Cons)
  have sp: "splitPath (joinSlash (x # xs)) = (x, joinSlash xs)"
    using x by (simp add: splitPath_join)
  have "insertRoute n (joinSlash (x # xs)) r = insertParam n name (joinSlash xs) r"
    using t ne sp x by (simp add: insertRoute.simps[of n] x_def)
  moreover have "children n = []" using assms(1) by (simp add: isLeaf_def)
  ultimately show ?thesis
    by (simp add: insertParam.simps[of n] x_def split: prod.splits)
qed

text \<open>Searching below a node whose only child is static, or is a parameter.\<close>

lemma search_only_static:
  assumes "isLeaf n" "nType c = staticNode" "path c = x" "x \<noteq> []" "CHR ''/'' \<notin> set x"
    and "(tq = [] \<and> rq = []) \<or> tq = CHR ''/'' # rq"
  shows "search (set_children n [c]) (x @ tq) ps = search c rq ps"
proof -
  have n: "set_children n [c] = RadixNode (path n) (nType n) (paramName n) None [c] None (priority n)"
    using assms(1) by (simp add: set_children_def isLeaf_def)
  have tr: "TrimPrefix tq ''/'' = rq" using assms(6) by (auto simp: TrimPrefix_slash TrimPrefix_Nil)
  have bd: "tq = [] \<or> hd tq = CHR ''/''" using assms(6) by auto
  show ?thesis
    unfolding n using assms(2,3,4) tr bd
    by (cases "search c rq ps") (auto simp: HasPrefix_def split: option.splits)
qed

lemma search_only_param:
  assumes "isLeaf n" "nType c = paramNode" "paramName c = name" "v \<noteq> []" "CHR ''/'' \<notin> set v"
    and "(tq = [] \<and> rq = []) \<or> tq = CHR ''/'' # rq"
  shows "search (set_children n [c]) (v @ tq) ps
           = (case search c rq (ps(name \<mapsto> v)) of
                (Some r, ps1) \<Rightarrow> (Some r, ps1)
              | (None, ps1) \<Rightarrow> (None, ps1(name := None)))"
proof -
  have n: "set_children n [c] = RadixNode (path n) (nType n) (paramName n) None [c] None (priority n)"
    using assms(1) by (simp add: set_children_def isLeaf_def)
  have sp: "splitPath (v @ tq) = (v, rq)"
    using assms(5,6) splitPath_no_slash[of v] splitPath_segment[of v rq] by auto
  show ?thesis
    unfolding n using assms(2,3,4) sp
    by (auto split: option.splits prod.splits)
qed

lemma isLeaf_new [simp]:
  "isLeaf (RadixNode x t pn None [] None pr)"
  by (simp add: isLeaf_def)

lemma validSeg_static:
  "validSeg x \<Longrightarrow> \<not> isParamSeg x \<Longrightarrow>
     x \<noteq> [] \<and> CHR ''/'' \<notin> set x \<and> \<not> HasPrefix x '':'' \<and> \<not> HasPrefix x ''*''"
  by (simp add: validSeg_def isParamSeg_def)

lemma validSeg_param:
  "validSeg x \<Longrightarrow> isParamSeg x \<Longrightarrow> x = CHR '':'' # drop 1 x \<and> CHR ''/'' \<notin> set (drop 1 x)"
  by (cases x) (auto simp: validSeg_def isParamSeg_def HasPrefix_def)


lemma chain_wildcard_empty:
  "isLeaf n \<Longrightarrow> list_all validSeg segs \<Longrightarrow> list_all2 fits segs vals \<Longrightarrow>
   CHR ''/'' \<notin> set name \<Longrightarrow>
     fst (search (snd (insertRoute n (joinSlash (segs @ [CHR ''*'' # name])) r)) (joinSlash vals) ps) = None
     \<and> (segs \<noteq> [] \<longrightarrow>
          fst (search (snd (insertRoute n (joinSlash (segs @ [CHR ''*'' # name])) r))
                (joinSlash vals @ ''/'') ps) = None)"
proof (induction segs arbitrary: n vals ps)
  case Nil
  then have "vals = []" by simp
  moreover have "splitPath (CHR ''*'' # name) = (CHR ''*'' # name, [])"
    using Nil(4) splitPath_no_slash[of "CHR ''*'' # name"] by simp
  then have "snd (insertRoute n (CHR ''*'' # name) r)
      = RadixNode (path n) (nType n) (paramName n) None []
          (Some (RadixNode [] wildcardNode name (Some r) [] None 10)) (priority n)"
    using Nil(1)
    by (simp add: insertRoute.simps[of n] isLeaf_def TrimPrefix_def HasPrefix_def
        insertWildcard_def set_wildcard_def)
  ultimately show ?case by simp
next
  case (Cons x xs)
  from Cons.prems(3) obtain v vs where vals: "vals = v # vs" and fv: "fits x v"
    and fvs: "list_all2 fits xs vs"
    by (auto simp: list_all2_Cons1)
  have vx: "validSeg x" and vxs: "list_all validSeg xs" using Cons.prems(2) by simp_all
  define W where "W = CHR ''*'' # name"
  define tq where "tq = (if vs = [] then [] else CHR ''/'' # joinSlash vs)"
  define rq' where "rq' = (if vs = [] then [] else joinSlash vs @ ''/'')"
  have jv: "joinSlash (v # vs) = v @ tq" by (simp add: joinSlash_Cons tq_def)
  have jv': "joinSlash (v # vs) @ ''/'' = v @ CHR ''/'' # rq'" by (simp add: joinSlash_Cons rq'_def)
  have tq: "(tq = [] \<and> joinSlash vs = []) \<or> tq = CHR ''/'' # joinSlash vs"
    by (simp add: tq_def)
  have tq': "(CHR ''/'' # rq' = [] \<and> rq' = []) \<or> CHR ''/'' # rq' = CHR ''/'' # rq'"
    by simp
  have len: "xs = [] \<longleftrightarrow> vs = []" using fvs by auto
  show ?case
  proof (cases "isParamSeg x")
    case True
    define pname where "pname = drop 1 x"
    have x: "x = CHR '':'' # pname" and nm: "CHR ''/'' \<notin> set pname"
      using validSeg_param[OF vx True] by (simp_all add: pname_def)
    define c where "c = snd (insertRoute (RadixNode [] paramNode pname None [] None 50) (joinSlash (xs @ [W])) r)"
    have ins: "snd (insertRoute n (joinSlash ((x # xs) @ [W])) r) = set_children n [c]"
      using insert_leaf_param[OF Cons.prems(1) nm, of "xs @ [W]" r] by (simp add: x c_def)
    have attrs: "nType c = paramNode" "paramName c = pname"
      using insertRoute_attrs[of "RadixNode [] paramNode pname None [] None 50" "joinSlash (xs @ [W])" r]
      by (simp_all add: c_def)
    have v: "v \<noteq> []" "CHR ''/'' \<notin> set v" using fv True by (simp_all add: fits_def)
    have IH: "\<And>q. fst (search c (joinSlash vs) q) = None
              \<and> (xs \<noteq> [] \<longrightarrow> fst (search c (joinSlash vs @ ''/'') q) = None)"
      unfolding c_def W_def by (rule Cons.IH[OF _ vxs fvs Cons.prems(4)]) simp
    have a: "fst (search (set_children n [c]) (v @ tq) ps) = None"
      using search_only_param[OF Cons.prems(1) attrs v tq, of ps] IH[of "ps(pname \<mapsto> v)"]
      by (auto split: prod.splits option.splits)
    have "fst (search c rq' (ps(pname \<mapsto> v))) = None"
      using IH[of "ps(pname \<mapsto> v)"] len by (auto simp: rq'_def)
    then have b: "fst (search (set_children n [c]) (v @ CHR ''/'' # rq') ps) = None"
      using search_only_param[OF Cons.prems(1) attrs v tq', of ps]
      by (auto split: prod.splits option.splits)
    have a': "fst (search (set_children n [c]) (joinSlash (v # vs)) ps) = None"
      using a by (simp only: jv)
    have b': "fst (search (set_children n [c]) (joinSlash (v # vs) @ ''/'') ps) = None"
      using b by (simp only: jv')
    show ?thesis
      using a' b' ins by (simp add: vals W_def)
  next
    case False
    have sx: "x \<noteq> []" "CHR ''/'' \<notin> set x" "\<not> HasPrefix x '':''" "\<not> HasPrefix x ''*''"
      using validSeg_static[OF vx False] by simp_all
    define c where "c = snd (insertRoute (RadixNode x staticNode [] None [] None 100) (joinSlash (xs @ [W])) r)"
    have ins: "snd (insertRoute n (joinSlash ((x # xs) @ [W])) r) = set_children n [c]"
      using insert_leaf_static[OF Cons.prems(1) sx, of "xs @ [W]" r] by (simp add: c_def)
    have attrs: "nType c = staticNode" "path c = x"
      using insertRoute_attrs[of "RadixNode x staticNode [] None [] None 100" "joinSlash (xs @ [W])" r]
      by (simp_all add: c_def)
    have v: "v = x" using fv False by (simp add: fits_def)
    have jx: "joinSlash (x # vs) = x @ tq" by (simp add: joinSlash_Cons tq_def)
    have jx': "joinSlash (x # vs) @ ''/'' = x @ CHR ''/'' # rq'" using jv' v by simp
    have IH: "\<And>q. fst (search c (joinSlash vs) q) = None
              \<and> (xs \<noteq> [] \<longrightarrow> fst (search c (joinSlash vs @ ''/'') q) = None)"
      unfolding c_def W_def by (rule Cons.IH[OF _ vxs fvs Cons.prems(4)]) simp
    have a: "fst (search (set_children n [c]) (x @ tq) ps) = None"
      using search_only_static[OF Cons.prems(1) attrs sx(1,2) tq, of ps] IH[of ps] by simp
    have "fst (search c rq' ps) = None"
      using IH[of ps] len by (auto simp: rq'_def)
    then have b: "fst (search (set_children n [c]) (x @ CHR ''/'' # rq') ps) = None"
      using search_only_static[OF Cons.prems(1) attrs sx(1,2) tq', of ps] by simp
    have a': "fst (search (set_children n [c]) (joinSlash (v # vs)) ps) = None"
      using a by (simp only: v jx)
    have b': "fst (search (set_children n [c]) (joinSlash (v # vs) @ ''/'') ps) = None"
      using b by (simp only: v jx')
    show ?thesis
      using a' b' ins by (simp add: vals W_def)
  qed
qed

lemma slashPath_join: "slashPath xs = (if xs = [] then [] else CHR ''/'' # joinSlash xs)"
proof (induction xs)
  case Nil
  show ?case by (simp add: slashPath_def)
next
  case (Cons x xs)
  then show ?case by (cases xs) (simp_all add: slashPath_def)
qed

lemma TrimPrefix_slashPath: "TrimPrefix (slashPath xs) ''/'' = joinSlash xs"
  by (simp add: slashPath_join TrimPrefix_slash TrimPrefix_Nil)

lemma slashPath_append: "slashPath (xs @ ys) = slashPath xs @ slashPath ys"
  by (simp add: slashPath_def)

lemma insertRoute_trim:
  "TrimPrefix p ''/'' = TrimPrefix p' ''/'' \<Longrightarrow> insertRoute n p r = insertRoute n p' r"
  by (simp add: insertRoute.simps[of n])

lemma TrimPrefix_joinSlash:
  "list_all (\<lambda>x. x \<noteq> [] \<and> CHR ''/'' \<notin> set x) xs \<Longrightarrow> TrimPrefix (joinSlash xs) ''/'' = joinSlash xs"
  by (cases xs) (auto simp: joinSlash_Cons TrimPrefix_seg TrimPrefix_Nil)

lemma insertRoute_slashPath:
  "list_all (\<lambda>x. x \<noteq> [] \<and> CHR ''/'' \<notin> set x) xs \<Longrightarrow>
     insertRoute n (slashPath xs) r = insertRoute n (joinSlash xs) r"
  by (rule insertRoute_trim) (simp add: TrimPrefix_slashPath TrimPrefix_joinSlash)

lemma Register_new:
  "Register newRadixMatcher meth pat h
     = (fst (insertRoute (RadixNode [] staticNode [] None [] None 0) pat
              \<lparr>httpMethod = meth, pattern = pat, handler = h\<rparr>),
        \<lparr>trees = [meth \<mapsto> snd (insertRoute (RadixNode [] staticNode [] None [] None 0) pat
                                \<lparr>httpMethod = meth, pattern = pat, handler = h\<rparr>)],
         compiled = False\<rparr>)"
  by (simp add: Register_def newRadixMatcher_def split: prod.splits)

lemma Match_Register_new:
  "Match (snd (Register newRadixMatcher meth pat h)) meth pth
     = (case search (snd (insertRoute (RadixNode [] staticNode [] None [] None 0) pat
                            \<lparr>httpMethod = meth, pattern = pat, handler = h\<rparr>))
               (TrimPrefix pth ''/'') Map.empty of
          (Some r, ps) \<Rightarrow> Some (r, ps)
        | (None, ps) \<Rightarrow> None)"
  by (simp add: Register_new Match_def)

lemma validSeg_basic: "validSeg x \<Longrightarrow> x \<noteq> [] \<and> CHR ''/'' \<notin> set x"
  by (simp add: validSeg_def)






lemma single_wildcard_empty:
  assumes "list_all validSeg segs" "list_all2 fits segs vals" "CHR ''/'' \<notin> set name"
  shows "Match (snd (Register newRadixMatcher meth (slashPath (segs @ [CHR ''*'' # name])) h)) meth
           (slashPath vals) = None"
    and "Match (snd (Register newRadixMatcher meth (slashPath (segs @ [CHR ''*'' # name])) h)) meth
           (slashPath vals @ ''/'') = None"
proof -
  define r where "r = \<lparr>httpMethod = meth, pattern = slashPath (segs @ [CHR ''*'' # name]), handler = h\<rparr>"
  define t where "t = snd (insertRoute (RadixNode [] staticNode [] None [] None 0)
                        (joinSlash (segs @ [CHR ''*'' # name])) r)"
  have b: "list_all (\<lambda>x. x \<noteq> [] \<and> CHR ''/'' \<notin> set x) (segs @ [CHR ''*'' # name])"
    using assms(1,3) by (simp add: list_all_iff validSeg_basic)
  have ins: "snd (insertRoute (RadixNode [] staticNode [] None [] None 0)
               (slashPath (segs @ [CHR ''*'' # name])) r) = t"
    by (simp add: insertRoute_slashPath[OF b] t_def)
  have ch: "fst (search t (joinSlash vals) Map.empty) = None
            \<and> (segs \<noteq> [] \<longrightarrow> fst (search t (joinSlash vals @ ''/'') Map.empty) = None)"
    unfolding t_def by (rule chain_wildcard_empty[OF _ assms]) simp
  have len: "segs = [] \<longleftrightarrow> vals = []" using assms(2) by auto
  show "Match (snd (Register newRadixMatcher meth (slashPath (segs @ [CHR ''*'' # name])) h)) meth
           (slashPath vals) = None"
    using ch ins
    by (auto simp: Match_Register_new r_def[symmetric] TrimPrefix_slashPath split: prod.splits option.splits)
  have tp: "TrimPrefix (slashPath vals @ ''/'') ''/'' = (if vals = [] then [] else joinSlash vals @ ''/'')"
    by (simp add: slashPath_join TrimPrefix_slash)
  show "Match (snd (Register newRadixMatcher meth (slashPath (segs @ [CHR ''*'' # name])) h)) meth
           (slashPath vals @ ''/'') = None"
  proof (cases "vals = []")
    case True
    then show ?thesis using ch ins tp
      by (auto simp: Match_Register_new r_def[symmetric] split: prod.splits option.splits)
  next
    case False
    then show ?thesis using ch ins tp len
      by (auto simp: Match_Register_new r_def[symmetric] split: prod.splits option.splits)
  qed
qed

lemma Register_new_ok: "fst (Register newRadixMatcher meth pat h) = None"
  using insert_leaf_ok(1)[of "RadixNode [] staticNode [] None [] None 0" pat
      "\<lparr>httpMethod = meth, pattern = pat, handler = h\<rparr>"]
  by (simp add: Register_new)





lemma search_Nil: "search n [] ps = (route n, ps)"
  by (cases n) simp

lemma search_leaf: "isLeaf n \<Longrightarrow> search n pth ps = (None, ps)"
  by (cases n) (simp add: isLeaf_def)

lemma searchStatic_append_dead:
  assumes "accepts c pth \<Longrightarrow> (\<And>q. search c (afterLabel c pth) q = (None, q))"
  shows "searchStatic (cs @ [c]) pth ps = searchStatic cs pth ps"
proof (induction cs arbitrary: ps)
  case Nil
  show ?case using assms by (auto simp: accepts_def afterLabel_def)
next
  case (Cons a cs)
  then show ?case by (auto split: prod.splits option.splits)
qed

lemma searchParam_append_static:
  "nType c = staticNode \<Longrightarrow> searchParam (cs @ [c]) pth ps = searchParam cs pth ps"
  by (induction cs arbitrary: ps) (auto split: prod.splits option.splits)

lemma search_append_dead:
  assumes "nType c = staticNode"
    and "accepts c pth \<Longrightarrow> (\<And>q. search c (afterLabel c pth) q = (None, q))"
  shows "search (set_children n (cs @ [c])) pth ps = search (set_children n cs) pth ps"
proof -
  have "\<And>q. searchStatic (cs @ [c]) pth q = searchStatic cs pth q"
    using assms(2) by (rule searchStatic_append_dead)
  moreover have "\<And>q. searchParam (cs @ [c]) pth q = searchParam cs pth q"
    using assms(1) by (rule searchParam_append_static)
  ultimately show ?thesis by (simp add: set_children_def split: prod.splits option.splits)
qed

lemma searchStatic_update_same:
  assumes "nType c' = nType (cs ! i)" "path c' = path (cs ! i)"
    and "accepts (cs ! i) pth \<Longrightarrow> (\<And>q. search c' (afterLabel (cs ! i) pth) q = search (cs ! i) (afterLabel (cs ! i) pth) q)"
  shows "i < length cs \<Longrightarrow> searchStatic (cs[i := c']) pth ps = searchStatic cs pth ps"
  using assms
proof (induction cs arbitrary: i ps)
  case Nil
  then show ?case by simp
next
  case (Cons a cs)
  show ?case
  proof (cases i)
    case 0
    then show ?thesis using Cons.prems by (auto simp: accepts_def afterLabel_def)
  next
    case (Suc k)
    have "\<And>q. searchStatic (cs[k := c']) pth q = searchStatic cs pth q"
      using Cons.IH[of k] Cons.prems Suc by simp
    then show ?thesis using Suc by (auto split: prod.splits option.splits)
  qed
qed

lemma searchParam_update_static:
  "i < length cs \<Longrightarrow> nType (cs ! i) = staticNode \<Longrightarrow> nType c' = staticNode \<Longrightarrow>
     searchParam (cs[i := c']) pth ps = searchParam cs pth ps"
proof (induction cs arbitrary: i ps)
  case Nil
  then show ?case by simp
next
  case (Cons a cs)
  show ?case
  proof (cases i)
    case 0
    then show ?thesis using Cons.prems by simp
  next
    case (Suc k)
    have "\<And>q. searchParam (cs[k := c']) pth q = searchParam cs pth q"
      using Cons.IH[of k] Cons.prems Suc by simp
    then show ?thesis using Suc by (auto split: prod.splits option.splits)
  qed
qed

lemma search_update_same:
  assumes "i < length (children n)" "nType (children n ! i) = staticNode"
    and "nType c' = staticNode" "path c' = path (children n ! i)"
    and "accepts (children n ! i) pth \<Longrightarrow>
           (\<And>q. search c' (afterLabel (children n ! i) pth) q
                  = search (children n ! i) (afterLabel (children n ! i) pth) q)"
  shows "search (set_children n ((children n)[i := c'])) pth ps = search n pth ps"
proof -
  have "\<And>q. searchStatic ((children n)[i := c']) pth q = searchStatic (children n) pth q"
    using searchStatic_update_same[of c' "children n" i pth] assms by simp
  moreover have "\<And>q. searchParam ((children n)[i := c']) pth q = searchParam (children n) pth q"
    using assms(1,2,3) by (rule searchParam_update_static)
  ultimately show ?thesis by (cases n) (simp add: set_children_def split: prod.splits option.splits)
qed

lemma findStaticChild_Some:
  "findStaticChild cs seg = Some i \<Longrightarrow>
     i < length cs \<and> nType (cs ! i) = staticNode \<and> HasPrefix seg (path (cs ! i))"
proof (induction cs arbitrary: i)
  case Nil
  then show ?case by simp
next
  case (Cons a cs)
  then show ?case by (cases i) (auto split: if_splits)
qed

lemma insertRoute_static_head:
  assumes "x \<noteq> []" "CHR ''/'' \<notin> set x" "\<not> HasPrefix x '':''" "\<not> HasPrefix x ''*''"
  shows "insertRoute n (joinSlash (x # xs)) r = insertStatic n x (joinSlash xs) r"
proof -
  have t: "TrimPrefix (joinSlash (x # xs)) ''/'' = joinSlash (x # xs)"
    using assms(1,2) by (simp add: joinSlash_Cons TrimPrefix_seg)
  have ne: "joinSlash (x # xs) \<noteq> []" using assms(1) by (simp add: joinSlash_Cons)
  have sp: "splitPath (joinSlash (x # xs)) = (x, joinSlash xs)"
    using assms(1,2) by (rule splitPath_join)
  show ?thesis using t ne sp assms(3,4) by (simp add: insertRoute.simps[of n])
qed

lemma insertStatic_invisible:
  fixes t :: "'h radixNode"
  assumes x: "x \<noteq> []" "CHR ''/'' \<notin> set x"
    and tq: "(tq = [] \<and> rq = []) \<or> tq = CHR ''/'' # rq"
    and below: "\<And>(node :: 'h radixNode) q. search (snd (insertRoute node R r)) rq q = search node rq q"
  shows "search (snd (insertStatic t x R r)) (x @ tq) ps = search t (x @ tq) ps"
proof (cases "findStaticChild (children t) x")
  case None
  define c where "c = snd (insertRoute (RadixNode x staticNode [] None [] None 100) R r)"
  have ins: "snd (insertStatic t x R r) = set_children t (children t @ [c])"
    using None by (simp add: insertStatic.simps[of t] c_def split: prod.splits)
  have attrs: "nType c = staticNode" "path c = x"
    using insertRoute_attrs[of "RadixNode x staticNode [] None [] None 100" R r]
    by (simp_all add: c_def)
  have al: "afterLabel c (x @ tq) = rq"
    using tq attrs by (auto simp: afterLabel_def TrimPrefix_slash TrimPrefix_Nil)
  have dead: "\<And>q. search c (afterLabel c (x @ tq)) q = (None, q)"
  proof -
    fix q
    have "search c rq q = search (RadixNode x staticNode [] None [] None 100) rq q"
      unfolding c_def by (rule below)
    also have "\<dots> = (None, q)" by (rule search_leaf) simp
    finally show "search c (afterLabel c (x @ tq)) q = (None, q)" using al by simp
  qed
  have "search (set_children t (children t @ [c])) (x @ tq) ps
          = search (set_children t (children t)) (x @ tq) ps"
    using attrs(1) dead by (rule search_append_dead)
  then show ?thesis using ins by simp
next
  case (Some i)
  define child where "child = children t ! i"
  have i: "i < length (children t)" and st: "nType child = staticNode"
    and pre: "HasPrefix x (path child)"
    using findStaticChild_Some[OF Some] by (simp_all add: child_def)
  show ?thesis
  proof (cases "length (path child) = length x")
    case True
    define c' where "c' = snd (insertRoute child R r)"
    have ins: "snd (insertStatic t x R r) = set_children t ((children t)[i := c'])"
      using Some True
      by (simp add: insertStatic.simps[of t] child_def[symmetric] c'_def split: prod.splits)
    have px: "path child = x" using pre True by (auto simp: HasPrefix_def prefix_def)
    have attrs: "nType c' = staticNode" "path c' = path (children t ! i)"
      using insertRoute_attrs[of child R r] st by (simp_all add: c'_def child_def)
    have al: "afterLabel (children t ! i) (x @ tq) = rq"
      using tq px by (auto simp: afterLabel_def child_def[symmetric] TrimPrefix_slash TrimPrefix_Nil)
    have same: "\<And>q. search c' (afterLabel (children t ! i) (x @ tq)) q
                   = search (children t ! i) (afterLabel (children t ! i) (x @ tq)) q"
      unfolding al c'_def child_def by (rule below)
    have "search (set_children t ((children t)[i := c'])) (x @ tq) ps = search t (x @ tq) ps"
      using i st[unfolded child_def] attrs same by (rule search_update_same)
    then show ?thesis using ins by simp
  next
    case False
    define c' where "c' = snd (insertRoute child (drop (length (path child)) x @ ''/'' @ R) r)"
    have ins: "snd (insertStatic t x R r) = set_children t ((children t)[i := c'])"
      using Some False
      by (simp add: insertStatic.simps[of t] child_def[symmetric] c'_def split: prod.splits)
    have attrs: "nType c' = staticNode" "path c' = path (children t ! i)"
      using insertRoute_attrs[of child "drop (length (path child)) x @ ''/'' @ R" r] st
      by (simp_all add: c'_def child_def)
    have len: "length (path child) < length x"
      using pre False by (auto simp: HasPrefix_def prefix_def)
    then have d: "drop (length (path child)) (x @ tq) = drop (length (path child)) x @ tq"
      by simp
    have ne: "drop (length (path child)) x \<noteq> []" using len by simp
    have "hd (drop (length (path child)) x) \<in> set x"
      using ne by (meson hd_in_set in_set_dropD)
    then have "hd (drop (length (path child)) x) \<noteq> CHR ''/''" using x(2) by auto
    then have rej: "\<not> accepts (children t ! i) (x @ tq)"
      using ne d by (simp add: accepts_def child_def[symmetric])
    have "search (set_children t ((children t)[i := c'])) (x @ tq) ps = search t (x @ tq) ps"
      using search_update_same[OF i st[unfolded child_def] attrs, of "x @ tq" ps] rej by simp
    then show ?thesis using ins by simp
  qed
qed

lemma wildcard_insert_invisible:
  fixes t :: "'h radixNode"
  assumes nm: "CHR ''/'' \<notin> set name"
  shows "list_all staticSeg segs \<Longrightarrow>
     (\<forall>ps. search (snd (insertRoute t (joinSlash (segs @ [CHR ''*'' # name])) r)) (joinSlash segs) ps
             = search t (joinSlash segs) ps)
     \<and> (segs \<noteq> [] \<longrightarrow>
          (\<forall>ps. search (snd (insertRoute t (joinSlash (segs @ [CHR ''*'' # name])) r))
                   (joinSlash segs @ ''/'') ps
                 = search t (joinSlash segs @ ''/'') ps))"
proof (induction segs arbitrary: t)
  case Nil
  have "splitPath (CHR ''*'' # name) = (CHR ''*'' # name, [])"
    using nm splitPath_no_slash[of "CHR ''*'' # name"] by simp
  then have "insertRoute t (CHR ''*'' # name) r = insertWildcard t name r"
    by (simp add: insertRoute.simps[of t] TrimPrefix_def HasPrefix_def)
  then show ?case by (simp add: search_Nil insertWildcard_def set_wildcard_def)
next
  case (Cons x xs)
  define W where "W = CHR ''*'' # name"
  define R where "R = joinSlash (xs @ [W])"
  have sx: "x \<noteq> []" "CHR ''/'' \<notin> set x" "\<not> HasPrefix x '':''" "\<not> HasPrefix x ''*''"
    using Cons.prems validSeg_static[of x] by (simp_all add: staticSeg_def)
  have sxs: "list_all staticSeg xs" using Cons.prems by simp
  have ins: "insertRoute t (joinSlash ((x # xs) @ [W])) r = insertStatic t x R r"
    using insertRoute_static_head[OF sx, of t "xs @ [W]" r] by (simp add: R_def)
  have IH1: "\<And>(node :: 'h radixNode) q.
               search (snd (insertRoute node R r)) (joinSlash xs) q = search node (joinSlash xs) q"
    using Cons.IH[OF sxs] by (simp add: R_def W_def)
  have IH2: "xs \<noteq> [] \<Longrightarrow> (\<And>(node :: 'h radixNode) q.
               search (snd (insertRoute node R r)) (joinSlash xs @ ''/'') q
                 = search node (joinSlash xs @ ''/'') q)"
    using Cons.IH[OF sxs] by (simp add: R_def W_def)
  define tq where "tq = (if xs = [] then [] else CHR ''/'' # joinSlash xs)"
  define rq' where "rq' = (if xs = [] then [] else joinSlash xs @ ''/'')"
  have jx: "joinSlash (x # xs) = x @ tq" by (simp add: joinSlash_Cons tq_def)
  have jx': "joinSlash (x # xs) @ ''/'' = x @ CHR ''/'' # rq'" by (simp add: joinSlash_Cons rq'_def)
  have tq: "(tq = [] \<and> joinSlash xs = []) \<or> tq = CHR ''/'' # joinSlash xs"
    by (simp add: tq_def)
  have tq': "(CHR ''/'' # rq' = [] \<and> rq' = []) \<or> CHR ''/'' # rq' = CHR ''/'' # rq'"
    by simp
  have below': "\<And>(node :: 'h radixNode) q. search (snd (insertRoute node R r)) rq' q = search node rq' q"
  proof -
    fix node :: "'h radixNode" and q
    show "search (snd (insertRoute node R r)) rq' q = search node rq' q"
    proof (cases "xs = []")
      case True
      then show ?thesis using IH1[of node q] by (simp add: rq'_def)
    next
      case False
      then show ?thesis using IH2[OF False, of node q] by (simp add: rq'_def)
    qed
  qed
  have a: "\<And>ps. search (snd (insertStatic t x R r)) (x @ tq) ps = search t (x @ tq) ps"
    using sx(1,2) tq IH1 by (rule insertStatic_invisible)
  have b: "\<And>ps. search (snd (insertStatic t x R r)) (x @ CHR ''/'' # rq') ps
                 = search t (x @ CHR ''/'' # rq') ps"
    using sx(1,2) tq' below' by (rule insertStatic_invisible)
  have A: "\<forall>ps. search (snd (insertRoute t (joinSlash ((x # xs) @ [W])) r)) (joinSlash (x # xs)) ps
             = search t (joinSlash (x # xs)) ps"
    unfolding ins jx using a by simp
  have B: "\<forall>ps. search (snd (insertRoute t (joinSlash ((x # xs) @ [W])) r)) (joinSlash (x # xs) @ ''/'') ps
             = search t (joinSlash (x # xs) @ ''/'') ps"
    unfolding ins jx' using b by simp
  show ?case using A B by (simp add: W_def)
qed

lemma Register_wildcard_invisible:
  assumes st: "list_all staticSeg segs" and nm: "CHR ''/'' \<notin> set name"
  shows "Match (snd (Register m meth (slashPath (segs @ [CHR ''*'' # name])) h)) meth' (slashPath segs)
           = Match m meth' (slashPath segs)"
    and "Match (snd (Register m meth (slashPath (segs @ [CHR ''*'' # name])) h)) meth'
           (slashPath segs @ ''/'')
           = Match m meth' (slashPath segs @ ''/'')"
proof -
  define pat where "pat = slashPath (segs @ [CHR ''*'' # name])"
  define r where "r = \<lparr>httpMethod = meth, pattern = pat, handler = h\<rparr>"
  define t0 where "t0 = (case trees m meth of
                       None \<Rightarrow> RadixNode [] staticNode [] None [] None 0
                     | Some t \<Rightarrow> t)"
  define t' where "t' = snd (insertRoute t0 (joinSlash (segs @ [CHR ''*'' # name])) r)"
  have b: "list_all (\<lambda>x. x \<noteq> [] \<and> CHR ''/'' \<notin> set x) (segs @ [CHR ''*'' # name])"
    using st nm by (simp add: list_all_iff staticSeg_def validSeg_basic)
  have ins: "snd (insertRoute t0 pat r) = t'"
    by (simp add: pat_def insertRoute_slashPath[OF b] t'_def)
  have inv: "\<And>ps. search t' (joinSlash segs) ps = search t0 (joinSlash segs) ps"
    "segs \<noteq> [] \<Longrightarrow> (\<And>ps. search t' (joinSlash segs @ ''/'') ps = search t0 (joinSlash segs @ ''/'') ps)"
    using wildcard_insert_invisible[OF nm st, of t0 r] by (simp_all add: t'_def)
  have tp: "TrimPrefix (slashPath segs @ ''/'') ''/'' = (if segs = [] then [] else joinSlash segs @ ''/'')"
    by (simp add: slashPath_join TrimPrefix_slash)
  have inv2: "\<And>ps. search t' (TrimPrefix (slashPath segs @ ''/'') ''/'') ps
                 = search t0 (TrimPrefix (slashPath segs @ ''/'') ''/'') ps"
    unfolding tp using inv by (cases "segs = []") simp_all
  have root: "\<And>q ps. trees m meth = None \<Longrightarrow> search t0 q ps = (None, ps)"
    by (simp add: t0_def)
  have reg: "\<not> compiled m \<Longrightarrow>
               snd (Register m meth pat h) = m\<lparr>trees := (trees m)(meth \<mapsto> t')\<rparr>"
    using ins by (auto simp: Register_def r_def[symmetric] t0_def[symmetric] split: prod.splits)
  have m1: "Match (snd (Register m meth pat h)) meth' (slashPath segs) = Match m meth' (slashPath segs)"
  proof (cases "compiled m")
    case True
    then show ?thesis by (simp add: Register_compiled)
  next
    case False
    show ?thesis
    proof (cases "trees m meth")
      case None
      then show ?thesis using reg[OF False] inv(1) root[OF None]
        by (simp add: Match_def TrimPrefix_slashPath)
    next
      case (Some t)
      then have "t0 = t" by (simp add: t0_def)
      then show ?thesis using reg[OF False] inv(1) Some
        by (simp add: Match_def TrimPrefix_slashPath)
    qed
  qed
  have m2: "Match (snd (Register m meth pat h)) meth' (slashPath segs @ ''/'')
              = Match m meth' (slashPath segs @ ''/'')"
  proof (cases "compiled m")
    case True
    then show ?thesis by (simp add: Register_compiled)
  next
    case False
    show ?thesis
    proof (cases "trees m meth")
      case None
      then show ?thesis using reg[OF False] inv2 root[OF None]
        by (simp add: Match_def)
    next
      case (Some t)
      then have "t0 = t" by (simp add: t0_def)
      then show ?thesis using reg[OF False] inv2 Some
        by (simp add: Match_def)
    qed
  qed
  show "Match (snd (Register m meth (slashPath (segs @ [CHR ''*'' # name])) h)) meth' (slashPath segs)
           = Match m meth' (slashPath segs)"
    using m1 by (simp add: pat_def)
  show "Match (snd (Register m meth (slashPath (segs @ [CHR ''*'' # name])) h)) meth'
           (slashPath segs @ ''/'')
           = Match m meth' (slashPath segs @ ''/'')"
    using m2 by (simp add: pat_def)
qed

text \<open>
  Claim C10. With an empty path search returns the route of the node it stands on and
  does not look at the wildcard child. On a matcher that holds only the route prefix/*name,
  registered without error, where the prefix is any list of static or parameter segments
  and the path fits it, Match finds nothing for the bare prefix and nothing for the prefix
  followed by one slash. On any matcher, registering prefix/*name with a prefix of static
  segments leaves the answers of Match for the prefix and for the prefix followed by one
  slash as they were: the wildcard route is never the match of a path with nothing after
  the prefix.
\<close>

theorem C10_wildcard_needs_remainder:
  "list_all validSeg segs \<Longrightarrow> list_all2 fits segs vals \<Longrightarrow> CHR ''/'' \<notin> set name \<Longrightarrow>
     search n [] ps = (route n, ps)
     \<and> fst (Register newRadixMatcher meth (slashPath (segs @ [CHR ''*'' # name])) h) = None
     \<and> Match (snd (Register newRadixMatcher meth (slashPath (segs @ [CHR ''*'' # name])) h)) meth
           (slashPath vals) = None
     \<and> Match (snd (Register newRadixMatcher meth (slashPath (segs @ [CHR ''*'' # name])) h)) meth
           (slashPath vals @ ''/'') = None
     \<and> (list_all staticSeg segs \<longrightarrow>
          Match (snd (Register m meth (slashPath (segs @ [CHR ''*'' # name])) h)) meth' (slashPath segs)
            = Match m meth' (slashPath segs)
          \<and> Match (snd (Register m meth (slashPath (segs @ [CHR ''*'' # name])) h)) meth'
              (slashPath segs @ ''/'')
            = Match m meth' (slashPath segs @ ''/''))"
  using single_wildcard_empty[of segs vals name meth h]
    Register_new_ok[of meth "slashPath (segs @ [CHR ''*'' # name])" h]
    Register_wildcard_invisible[of segs name m meth h meth']
  by (simp add: search_Nil)

theorem C10_wildcard_needs_remainder_witness:
  "list_all validSeg [''files''] \<and> list_all2 fits [''files''] [''files''] \<and> CHR ''/'' \<notin> set ''path''
   \<and> list_all staticSeg [''files'']
   \<and> fst (Register newRadixMatcher ''GET'' ''/files/*path'' (0::nat)) = None
   \<and> Match (snd (Register newRadixMatcher ''GET'' ''/files/*path'' (0::nat))) ''GET'' ''/files'' = None
   \<and> Match (snd (Register newRadixMatcher ''GET'' ''/files/*path'' (0::nat))) ''GET'' ''/files/'' = None
   \<and> Match (snd (Register (snd (Register newRadixMatcher ''GET'' ''/files'' (1::nat)))
                  ''GET'' ''/files/*path'' 0)) ''GET'' ''/files''
       = Some (\<lparr>httpMethod = ''GET'', pattern = ''/files'', handler = 1\<rparr>, Map.empty)
   \<and> Match (snd (Register newRadixMatcher ''GET'' ''/files/*path'' (0::nat))) ''GET'' ''/files/a/b''
       = Some (\<lparr>httpMethod = ''GET'', pattern = ''/files/*path'', handler = 0\<rparr>,
               [''path'' \<mapsto> ''a/b''])"
proof -
  have v: "list_all validSeg [''files'']" "list_all2 fits [''files''] [''files'']"
    "CHR ''/'' \<notin> set ''path''" "list_all staticSeg [''files'']"
    by (simp_all add: staticSeg_def validSeg_def fits_def isParamSeg_def HasPrefix_def)
  have before: "Match (snd (Register newRadixMatcher ''GET'' ''/files'' (1::nat))) ''GET'' ''/files''
       = Some (\<lparr>httpMethod = ''GET'', pattern = ''/files'', handler = 1\<rparr>, Map.empty)"
    by (simp add: matcher_eval)
  have found: "Match (snd (Register newRadixMatcher ''GET'' ''/files/*path'' (0::nat))) ''GET'' ''/files/a/b''
       = Some (\<lparr>httpMethod = ''GET'', pattern = ''/files/*path'', handler = 0\<rparr>,
               [''path'' \<mapsto> ''a/b''])"
    by (simp add: matcher_eval)
  show ?thesis
    using C10_wildcard_needs_remainder[OF v(1,2,3), of "RadixNode [] staticNode [] None [] None 0"
        Map.empty "''GET''" "0::nat" "snd (Register newRadixMatcher ''GET'' ''/files'' (1::nat))" "''GET''"]
      v before found
    by (simp add: slashPath_def)
qed






section \<open>Properties of the dispatch\<close>

subsection \<open>Middleware order\<close>

lemma applyMiddleware_take:
  "i \<le> length mws \<Longrightarrow> applyMiddleware mws i h = foldr Process (take i mws) h"
proof (induction i arbitrary: h)
  case 0
  show ?case by simp
next
  case (Suc i)
  then have "take (Suc i) mws = take i mws @ [mws ! i]"
    by (simp add: take_Suc_conv_app_nth)
  then show ?case using Suc by simp
qed

lemma foldr_marking:
  "foldr Process (map marking ks) h c
     = (fst (h (foldl (\<lambda>c k. mark c (''<'' @ k)) c ks)),
        foldl (\<lambda>c k. mark c (''>'' @ k)) (snd (h (foldl (\<lambda>c k. mark c (''<'' @ k)) c ks))) (rev ks))"
  by (induction ks arbitrary: c) (simp_all add: Process_def marking_def split: prod.splits)

text \<open>
  Claim C6. The handler that ServeHTTP calls for a route is
  m1.Process(m2.Process(... mn.Process(h) ...)) for the middleware m1..mn of the router and
  the handler h of the route, and Use appends to the middleware in the order of the calls.
  A chain of middleware that mark the response before and after calling the next handler
  leaves the marks of entry in the order of registration, then what the handler does, then
  the marks of exit in the reverse order; dispatch through ServeHTTP with two of them
  registered by Use shows it.
\<close>

theorem C6_middleware_order:
  "effectiveHandler r rt = foldr Process (middleware r) (handler rt)
   \<and> Option.bind (Use New ms1) (\<lambda>r. Use r ms2) = Some (New\<lparr>middleware := ms1 @ ms2\<rparr>)
   \<and> foldr Process (map marking ks) h c
       = (fst (h (foldl (\<lambda>c k. mark c (''<'' @ k)) c ks)),
          foldl (\<lambda>c k. mark c (''>'' @ k)) (snd (h (foldl (\<lambda>c k. mark c (''<'' @ k)) c ks))) (rev ks))
   \<and> (case Option.bind (Use New [marking ''1'', marking ''2'']) (\<lambda>r. GET r ''/'' hello) of
        None \<Rightarrow> False
      | Some r \<Rightarrow>
          body (fst (snd (ServeHTTP r blank \<lparr>reqMethod = ''GET'', urlPath = ''/''\<rparr>)))
            = ''<1<2hello>2>1'')"
proof -
  have a: "effectiveHandler r rt = foldr Process (middleware r) (handler rt)"
    using applyMiddleware_take[of "length (middleware r)" "middleware r" "handler rt"]
    by (simp add: effectiveHandler_def)
  have b: "Option.bind (Use New ms1) (\<lambda>r. Use r ms2) = Some (New\<lparr>middleware := ms1 @ ms2\<rparr>)"
    by (simp add: Use_def New_def)
  have d: "case Option.bind (Use New [marking ''1'', marking ''2'']) (\<lambda>r. GET r ''/'' hello) of
        None \<Rightarrow> False
      | Some r \<Rightarrow>
          body (fst (snd (ServeHTTP r blank \<lparr>reqMethod = ''GET'', urlPath = ''/''\<rparr>)))
            = ''<1<2hello>2>1''"
    by (simp add: Use_def New_def GET_def registerRoute_def ServeHTTP_def ensureCompiled_def
        effectiveHandler_def Process_def marking_def mark_def hello_def blank_def newContext_def
        writerOf_def Write_def matcher_eval)
  show ?thesis using a b d foldr_marking[of ks h c] by simp
qed

subsection \<open>Handler errors\<close>







lemma testRouter_match:
  "Match (snd (Compile (table (testRouter h)))) (reqMethod testRequest) (urlPath testRequest)
     = Some (\<lparr>httpMethod = ''GET'', pattern = ''/test'', handler = h\<rparr>, Map.empty)"
  by (simp add: testRouter_def testRequest_def matcher_eval)

lemma testRouter_custom_match:
  "Match (snd (Compile (table (SetErrorHandler (testRouter h) eh)))) (reqMethod testRequest)
       (urlPath testRequest)
     = Some (\<lparr>httpMethod = ''GET'', pattern = ''/test'', handler = h\<rparr>, Map.empty)"
  using testRouter_match[of h] by (simp add: SetErrorHandler_def)




subsection \<open>The context pool during dispatch\<close>




end
